theory Spec2Isabelle
  imports Main "HOL-Library.Word" "HOL-Library.Sublist"
begin

text \<open>
  A shallow embedding of the two string functions of \<open>src/utils/text-tools.ts\<close> that the
  specification documents, \<open>smartMergeStrings\<close> (the fragment merger) and
  \<open>buildMdFromAnswer\<close> (the footnote reconciler), with the properties C1 to C10 stated of
  them. Each section first translates the source, then proves.
\<close>

section \<open>Fragment merger: \<open>smartMergeStrings\<close> (src/utils/text-tools.ts, lines 165-199)\<close>

text \<open>
  A JavaScript string is a sequence of UTF-16 code units. \<open>smartMergeStrings\<close> only
  compares, slices and concatenates its arguments, so it is modelled over lists of any
  element type; \<open>length\<close> is the string's \<open>.length\<close>.

  \<open>str1.includes(str2)\<close> is true when \<open>str2\<close> occurs in \<open>str1\<close> as a contiguous
  block: \<open>sublist str2 str1\<close> of HOL-Library.
\<close>

definition str_includes :: "'a list \<Rightarrow> 'a list \<Rightarrow> bool" where
  "str_includes s t = sublist t s"

text \<open>
  The \<open>for\<close> loop of lines 179-190: \<open>overlapLength\<close> runs from \<open>maxOverlap\<close> down to 1
  and the loop breaks at the first match; \<open>bestOverlapLength\<close> stays 0 when nothing matches.
  \<open>str1.slice(str1.length - overlapLength)\<close> is \<open>drop\<close> (the index is never negative, as
  \<open>overlapLength \<le> maxOverlap \<le> str1.length\<close>), \<open>str2.slice(0, overlapLength)\<close> is \<open>take\<close>.
\<close>

fun overlapLoop :: "'a list \<Rightarrow> 'a list \<Rightarrow> nat \<Rightarrow> nat" where
  "overlapLoop str1 str2 0 = 0"
| "overlapLoop str1 str2 (Suc n) =
     (let endOfStr1 = drop (length str1 - Suc n) str1;
          startOfStr2 = take (Suc n) str2
      in if endOfStr1 = startOfStr2 then Suc n else overlapLoop str1 str2 n)"

definition smartMergeStrings :: "'a list \<Rightarrow> 'a list \<Rightarrow> 'a list" where
  "smartMergeStrings str1 str2 =
     (if str1 = [] then str2
      else if str2 = [] then str1
      else if str_includes str1 str2 then str1
      else if str_includes str2 str1 then str2
      else
        let maxOverlap = min (length str1) (length str2);
            bestOverlapLength = overlapLoop str1 str2 maxOverlap
        in if bestOverlapLength > 0
           then take (length str1 - bestOverlapLength) str1 @ str2
           else str1 @ str2)"

text \<open>
  The specification's notion of an overlap of length \<open>L\<close>: \<open>1 \<le> L \<le> min(len(first),
  len(second))\<close> and the last \<open>L\<close> characters of \<open>first\<close> equal the first \<open>L\<close> characters of
  \<open>second\<close>. This definition follows the specification's words; \<open>overlapLoop\<close> above
  follows the code.
\<close>

definition spec_overlap :: "'a list \<Rightarrow> 'a list \<Rightarrow> nat \<Rightarrow> bool" where
  "spec_overlap first second L =
     (1 \<le> L \<and> L \<le> min (length first) (length second) \<and>
      drop (length first - L) first = take L second)"


subsection \<open>Properties of the overlap search\<close>

lemma overlapLoop_le: "overlapLoop s1 s2 n \<le> n"
  by (induction n) (auto simp: Let_def)

lemma overlapLoop_pos_match:
  "0 < overlapLoop s1 s2 n \<Longrightarrow>
     drop (length s1 - overlapLoop s1 s2 n) s1 = take (overlapLoop s1 s2 n) s2"
  by (induction n) (auto simp: Let_def)

lemma overlapLoop_pos_ge1: "0 < overlapLoop s1 s2 n \<Longrightarrow> 1 \<le> overlapLoop s1 s2 n"
  by simp

lemma overlapLoop_largest:
  "overlapLoop s1 s2 n < L \<Longrightarrow> L \<le> n \<Longrightarrow> drop (length s1 - L) s1 \<noteq> take L s2"
proof (induction n)
  case 0
  then show ?case by simp
next
  case (Suc n)
  show ?case
  proof (cases "drop (length s1 - Suc n) s1 = take (Suc n) s2")
    case True
    with Suc.prems show ?thesis by (simp add: Let_def)
  next
    case False
    show ?thesis
    proof (cases "L = Suc n")
      case True
      with False show ?thesis by simp
    next
      case neq: False
      with Suc.prems have "L \<le> n" by simp
      moreover from False Suc.prems have "overlapLoop s1 s2 n < L" by (simp add: Let_def)
      ultimately show ?thesis by (rule Suc.IH[rotated])
    qed
  qed
qed

lemma overlapLoop_zero_iff:
  "overlapLoop s1 s2 n = 0 \<longleftrightarrow> (\<forall>L. 1 \<le> L \<and> L \<le> n \<longrightarrow> drop (length s1 - L) s1 \<noteq> take L s2)"
proof
  assume z: "overlapLoop s1 s2 n = 0"
  show "\<forall>L. 1 \<le> L \<and> L \<le> n \<longrightarrow> drop (length s1 - L) s1 \<noteq> take L s2"
  proof (intro allI impI)
    fix L assume "1 \<le> L \<and> L \<le> n"
    with z have "overlapLoop s1 s2 n < L" "L \<le> n" by simp_all
    then show "drop (length s1 - L) s1 \<noteq> take L s2" by (rule overlapLoop_largest)
  qed
next
  assume a: "\<forall>L. 1 \<le> L \<and> L \<le> n \<longrightarrow> drop (length s1 - L) s1 \<noteq> take L s2"
  show "overlapLoop s1 s2 n = 0"
  proof (rule ccontr)
    assume "overlapLoop s1 s2 n \<noteq> 0"
    then have p: "0 < overlapLoop s1 s2 n" by simp
    from overlapLoop_pos_match[OF p] overlapLoop_le[of s1 s2 n] p a
    show False by (metis One_nat_def Suc_leI)
  qed
qed

lemma overlapLoop_is_spec_overlap:
  "0 < overlapLoop s1 s2 (min (length s1) (length s2)) \<Longrightarrow>
     spec_overlap s1 s2 (overlapLoop s1 s2 (min (length s1) (length s2)))"
  unfolding spec_overlap_def
  using overlapLoop_le[of s1 s2 "min (length s1) (length s2)"] overlapLoop_pos_match[of s1 s2]
  by simp

lemma overlapLoop_eq_largest:
  assumes ov: "spec_overlap s1 s2 L"
    and mx: "\<And>L'. spec_overlap s1 s2 L' \<Longrightarrow> L' \<le> L"
  shows "overlapLoop s1 s2 (min (length s1) (length s2)) = L"
proof -
  let ?n = "min (length s1) (length s2)"
  let ?r = "overlapLoop s1 s2 ?n"
  from ov have L: "1 \<le> L" "L \<le> ?n" "drop (length s1 - L) s1 = take L s2"
    by (simp_all add: spec_overlap_def)
  have "\<not> ?r < L" using overlapLoop_largest[of s1 s2 ?n L] L by blast
  then have ge: "L \<le> ?r" by simp
  with L have "0 < ?r" by simp
  then have "spec_overlap s1 s2 ?r" by (rule overlapLoop_is_spec_overlap)
  then have "?r \<le> L" by (rule mx)
  with ge show ?thesis by simp
qed

lemma overlapLoop_none:
  assumes "\<And>L. \<not> spec_overlap s1 s2 L"
  shows "overlapLoop s1 s2 (min (length s1) (length s2)) = 0"
proof (rule ccontr)
  assume "overlapLoop s1 s2 (min (length s1) (length s2)) \<noteq> 0"
  then have "0 < overlapLoop s1 s2 (min (length s1) (length s2))" by simp
  then have "spec_overlap s1 s2 (overlapLoop s1 s2 (min (length s1) (length s2)))"
    by (rule overlapLoop_is_spec_overlap)
  with assms show False by blast
qed


lemma spec_overlap_largest:
  assumes "\<exists>L. spec_overlap s1 s2 L"
  shows "\<exists>Lmax. spec_overlap s1 s2 Lmax \<and> (\<forall>L'. spec_overlap s1 s2 L' \<longrightarrow> L' \<le> Lmax)"
proof -
  let ?n = "min (length s1) (length s2)"
  let ?r = "overlapLoop s1 s2 ?n"
  have bound: "L' \<le> ?r" if "spec_overlap s1 s2 L'" for L'
  proof -
    from that have "L' \<le> ?n" "drop (length s1 - L') s1 = take L' s2"
      by (simp_all add: spec_overlap_def)
    then have "\<not> ?r < L'" using overlapLoop_largest[of s1 s2 ?n L'] by blast
    then show ?thesis by simp
  qed
  from assms obtain L where L: "spec_overlap s1 s2 L" by blast
  then have "1 \<le> L" by (simp add: spec_overlap_def)
  with bound[OF L] have "0 < ?r" by simp
  then have "spec_overlap s1 s2 ?r" by (rule overlapLoop_is_spec_overlap)
  with bound show ?thesis by blast
qed


subsection \<open>The merger's identity and length bounds\<close>

text \<open>
  C9. For every string \<open>s\<close>, \<open>merge(s, "") = s\<close> and \<open>merge("", s) = s\<close>: the empty string
  is a left and a right identity of \<open>smartMergeStrings\<close>.
\<close>

theorem C9_merge_empty_identity:
  "smartMergeStrings s [] = s \<and> smartMergeStrings [] s = s"
  by (simp add: smartMergeStrings_def)

theorem C9_merge_empty_identity_witness:
  "smartMergeStrings ''hello'' [] = ''hello'' \<and> smartMergeStrings [] ''hello'' = ''hello''"
  using C9_merge_empty_identity[of "''hello''"] by simp

text \<open>
  C10. For every pair of strings, the length of the merge is at least the larger of the
  two lengths and at most their sum.
\<close>

theorem C10_merge_length_bounds:
  "max (length s1) (length s2) \<le> length (smartMergeStrings s1 s2) \<and>
   length (smartMergeStrings s1 s2) \<le> length s1 + length s2"
proof -
  let ?n = "min (length s1) (length s2)"
  have le: "overlapLoop s1 s2 ?n \<le> ?n" by (rule overlapLoop_le)
  have inc1: "sublist s2 s1 \<Longrightarrow> length s2 \<le> length s1" by (rule sublist_length_le)
  have inc2: "sublist s1 s2 \<Longrightarrow> length s1 \<le> length s2" by (rule sublist_length_le)
  show ?thesis
    using le inc1 inc2
    by (auto simp: smartMergeStrings_def str_includes_def Let_def)
qed

theorem C10_merge_length_bounds_witness:
  "max (length ''hello wor'') (length ''world'')
     \<le> length (smartMergeStrings ''hello wor'' ''world'') \<and>
   length (smartMergeStrings ''hello wor'' ''world'') \<le> length ''hello wor'' + length ''world''"
  using C10_merge_length_bounds[of "''hello wor''" "''world''"] by simp

subsection \<open>The merger's case analysis\<close>

text \<open>
  C3. If one string contains the other, the containing string is returned. For non-empty
  strings neither of which contains the other: when some overlap length \<open>L\<close> with
  \<open>1 \<le> L \<le> min(len(first), len(second))\<close> exists (the last \<open>L\<close> characters of \<open>first\<close> equal
  the first \<open>L\<close> characters of \<open>second\<close>), the result is \<open>first\<close> without its last \<open>L*\<close>
  characters followed by all of \<open>second\<close>, for the largest such \<open>L*\<close>; when none exists the
  result is \<open>first + second\<close>.
\<close>

theorem C3_merge_cases:
  "(sublist second first \<longrightarrow> smartMergeStrings first second = first) \<and>
   (sublist first second \<longrightarrow> smartMergeStrings first second = second) \<and>
   (first \<noteq> [] \<and> second \<noteq> [] \<and> \<not> sublist second first \<and> \<not> sublist first second \<longrightarrow>
      ((\<exists>L. spec_overlap first second L) \<longrightarrow>
         (\<exists>Lmax. spec_overlap first second Lmax \<and>
                 (\<forall>L'. spec_overlap first second L' \<longrightarrow> L' \<le> Lmax) \<and>
                 smartMergeStrings first second = take (length first - Lmax) first @ second)) \<and>
      ((\<forall>L. \<not> spec_overlap first second L) \<longrightarrow>
         smartMergeStrings first second = first @ second))"
proof (intro conjI impI allI)
  assume c: "sublist second first"
  show "smartMergeStrings first second = first"
  proof (cases "first = []")
    case True
    with c show ?thesis by (simp add: smartMergeStrings_def)
  next
    case False
    with c show ?thesis by (simp add: smartMergeStrings_def str_includes_def)
  qed
next
  assume c: "sublist first second"
  show "smartMergeStrings first second = second"
  proof (cases "sublist second first")
    case True
    from c True have "first = second" by (rule sublist_order.order.antisym)
    then show ?thesis by (simp add: smartMergeStrings_def str_includes_def)
  next
    case False
    with c show ?thesis by (auto simp: smartMergeStrings_def str_includes_def)
  qed
next
  assume ne: "first \<noteq> [] \<and> second \<noteq> [] \<and> \<not> sublist second first \<and> \<not> sublist first second"
    and ex: "\<exists>L. spec_overlap first second L"
  from spec_overlap_largest[OF ex] obtain Lmax where
    ov: "spec_overlap first second Lmax" and
    mx: "\<forall>L'. spec_overlap first second L' \<longrightarrow> L' \<le> Lmax"
    by blast
  from ov mx have "overlapLoop first second (min (length first) (length second)) = Lmax"
    by (intro overlapLoop_eq_largest) blast+
  moreover from ov have "0 < Lmax" by (simp add: spec_overlap_def)
  ultimately have "smartMergeStrings first second = take (length first - Lmax) first @ second"
    using ne by (simp add: smartMergeStrings_def str_includes_def)
  with ov mx show "\<exists>Lmax. spec_overlap first second Lmax \<and>
                 (\<forall>L'. spec_overlap first second L' \<longrightarrow> L' \<le> Lmax) \<and>
                 smartMergeStrings first second = take (length first - Lmax) first @ second"
    by blast
next
  assume ne: "first \<noteq> [] \<and> second \<noteq> [] \<and> \<not> sublist second first \<and> \<not> sublist first second"
    and no: "\<forall>L. \<not> spec_overlap first second L"
  from no have "overlapLoop first second (min (length first) (length second)) = 0"
    by (intro overlapLoop_none) blast
  then show "smartMergeStrings first second = first @ second"
    using ne by (simp add: smartMergeStrings_def str_includes_def)
qed

text \<open>
  The specification's examples, each obtained from the theorem with its hypotheses
  discharged: \<open>merge("hello wor", "world") = "hello world"\<close> (largest overlap 3),
  \<open>merge("abc", "b") = "abc"\<close>, \<open>merge("b", "abc") = "abc"\<close> and
  \<open>merge("foo", "bar") = "foobar"\<close> (no overlap).
\<close>

theorem C3_merge_cases_witness:
  "smartMergeStrings ''hello wor'' ''world'' = ''hello world'' \<and>
   smartMergeStrings ''abc'' ''b'' = ''abc'' \<and>
   smartMergeStrings ''b'' ''abc'' = ''abc'' \<and>
   smartMergeStrings ''foo'' ''bar'' = ''foobar''"
proof -
  have n1: "''hello wor'' \<noteq> [] \<and> ''world'' \<noteq> [] \<and> \<not> sublist ''world'' ''hello wor'' \<and>
            \<not> sublist ''hello wor'' ''world''"
    by (simp add: sublist_code)
  have o3: "spec_overlap ''hello wor'' ''world'' 3"
    by (simp add: spec_overlap_def)
  have mx: "\<forall>L'. spec_overlap ''hello wor'' ''world'' L' \<longrightarrow> L' \<le> 3"
  proof (intro allI impI)
    fix L' assume a: "spec_overlap ''hello wor'' ''world'' L'"
    show "L' \<le> 3"
    proof (rule ccontr)
      assume "\<not> L' \<le> 3"
      with a have "L' = 4 \<or> L' = 5" by (auto simp: spec_overlap_def)
      with a show False by (auto simp: spec_overlap_def)
    qed
  qed
  from o3 have "\<exists>L. spec_overlap ''hello wor'' ''world'' L" by blast
  with C3_merge_cases[where first = "''hello wor''" and second = "''world''"] n1
  obtain Lmax where
    ov: "spec_overlap ''hello wor'' ''world'' Lmax" and
    lg: "\<forall>L'. spec_overlap ''hello wor'' ''world'' L' \<longrightarrow> L' \<le> Lmax" and
    mg: "smartMergeStrings ''hello wor'' ''world''
           = take (length ''hello wor'' - Lmax) ''hello wor'' @ ''world''"
    by blast
  from lg o3 have "3 \<le> Lmax" by blast
  moreover from mx ov have "Lmax \<le> 3" by blast
  ultimately have "Lmax = 3" by simp
  with mg have e1: "smartMergeStrings ''hello wor'' ''world'' = ''hello world''" by simp
  have e2: "smartMergeStrings ''abc'' ''b'' = ''abc''"
    using C3_merge_cases[where first = "''abc''" and second = "''b''"] by (simp add: sublist_code)
  have e3: "smartMergeStrings ''b'' ''abc'' = ''abc''"
    using C3_merge_cases[where first = "''b''" and second = "''abc''"] by (simp add: sublist_code)
  have n4: "''foo'' \<noteq> [] \<and> ''bar'' \<noteq> [] \<and> \<not> sublist ''bar'' ''foo'' \<and> \<not> sublist ''foo'' ''bar''"
    by (simp add: sublist_code)
  have no: "\<forall>L. \<not> spec_overlap ''foo'' ''bar'' L"
  proof (intro allI notI)
    fix L assume a: "spec_overlap ''foo'' ''bar'' L"
    then have "L = 1 \<or> L = 2 \<or> L = 3" by (auto simp: spec_overlap_def)
    with a show False by (auto simp: spec_overlap_def)
  qed
  have e4: "smartMergeStrings ''foo'' ''bar'' = ''foobar''"
    using C3_merge_cases[where first = "''foo''" and second = "''bar''"] n4 no by simp
  from e1 e2 e3 e4 show ?thesis by simp
qed


section \<open>Footnote reconciler: \<open>buildMdFromAnswer\<close> (src/utils/text-tools.ts, lines 4-115)\<close>

subsection \<open>Strings\<close>

text \<open>
  A JavaScript string is a sequence of 16-bit UTF-16 code units. Literals of the source
  are written with \<open>lit\<close> from their ASCII text; the line feed of the template literals
  is \<open>LF\<close> and the separator glyph of lines 64 and 90 (U+205C) is \<open>GLYPH\<close>.
\<close>

type_synonym jschar = "16 word"
type_synonym jstring = "jschar list"

definition lit :: "string \<Rightarrow> jstring" where
  "lit s = map of_char s"

abbreviation (input) LF :: jschar where "LF \<equiv> 0x0A"
abbreviation (input) SP :: jschar where "SP \<equiv> 0x20"
abbreviation (input) GLYPH :: jschar where "GLYPH \<equiv> 0x205C"

text \<open>\<open>\d\<close> of a regular expression: the ten ASCII digits.\<close>

definition isDigit :: "jschar \<Rightarrow> bool" where
  "isDigit c = (0x30 \<le> c \<and> c \<le> 0x39)"

text \<open>
  \<open>\s\<close> of a regular expression, which is also what \<open>String.prototype.trim\<close> strips:
  ECMAScript's WhiteSpace (TAB, VT, FF, ZWNBSP and the Unicode space separators) and
  LineTerminator (LF, CR, LS, PS) code points, all of them single code units.
\<close>

definition isWhiteSpace :: "jschar \<Rightarrow> bool" where
  "isWhiteSpace c =
     (c = 0x09 \<or> c = 0x0A \<or> c = 0x0B \<or> c = 0x0C \<or> c = 0x0D \<or> c = 0x20 \<or> c = 0xA0 \<or>
      c = 0x1680 \<or> (0x2000 \<le> c \<and> c \<le> 0x200A) \<or> c = 0x2028 \<or> c = 0x2029 \<or>
      c = 0x202F \<or> c = 0x205F \<or> c = 0x3000 \<or> c = 0xFEFF)"

text \<open>\<open>String.prototype.trim\<close>.\<close>

definition trimStart :: "jstring \<Rightarrow> jstring" where
  "trimStart s = dropWhile isWhiteSpace s"

definition trimEnd :: "jstring \<Rightarrow> jstring" where
  "trimEnd s = rev (dropWhile isWhiteSpace (rev s))"

definition trim :: "jstring \<Rightarrow> jstring" where
  "trim s = trimEnd (trimStart s)"

text \<open>\<open>Array.prototype.join\<close>.\<close>

fun join :: "jstring \<Rightarrow> jstring list \<Rightarrow> jstring" where
  "join sep [] = []"
| "join sep [x] = x"
| "join sep (x # y # ys) = x @ sep @ join sep (y # ys)"

text \<open>
  A number in a template literal: the decimal digits of a non-negative integer (the
  numbers printed here are array indices plus one).
\<close>

definition digitChar :: "nat \<Rightarrow> jschar" where
  "digitChar d = of_nat (48 + d)"

fun showNat :: "nat \<Rightarrow> jstring" where
  "showNat n = (if n < 10 then [digitChar n] else showNat (n div 10) @ [digitChar (n mod 10)])"

declare showNat.simps [simp del]

text \<open>
  \<open>parseInt\<close> is only ever applied to a capture of \<open>\d+\<close>, a non-empty string of ASCII
  digits, where it is the decimal value. JavaScript computes it as a double; every use
  below compares the value with an array length or with an index up to that length, and
  on those comparisons the rounded value and the exact one agree, so the model keeps the
  exact natural number.
\<close>

definition digitValue :: "jschar \<Rightarrow> nat" where
  "digitValue c = unat c - 48"

definition parseInt :: "jstring \<Rightarrow> nat" where
  "parseInt s = foldl (\<lambda>acc c. 10 * acc + digitValue c) 0 s"

text \<open>The template \<open>`[^${x}]`\<close>.\<close>

definition marker :: "jstring \<Rightarrow> jstring" where
  "marker x = lit ''[^'' @ x @ lit '']''"


subsection \<open>The two regular expressions\<close>

text \<open>
  \<open>footnoteRegex = /\[\^(\d+)]/g\<close> tried at the start of \<open>s\<close>: the characters \<open>[^\<close>, a
  non-empty run of digits, then \<open>]\<close>. The digit run is the longest one (\<open>\d+\<close> is greedy, and
  a shorter run is followed by a digit, never by \<open>]\<close>). The result is the capture group and
  the text after the match.
\<close>

definition matchFootnote :: "jstring \<Rightarrow> (jstring \<times> jstring) option" where
  "matchFootnote s =
     (case s of
        a # b # r \<Rightarrow>
          if a = 0x5B \<and> b = 0x5E then
            (case dropWhile isDigit r of
               c # rest \<Rightarrow>
                 if takeWhile isDigit r \<noteq> [] \<and> c = 0x5D
                 then Some (takeWhile isDigit r, rest) else None
             | [] \<Rightarrow> None)
          else None
      | _ \<Rightarrow> None)"

text \<open>
  \<open>groupedFootnoteRegex = /\[\^(\d+)(?:,\s*\^(\d+))+]/g\<close>, piece by piece; each function
  returns the text after the piece it matched. Every piece ends at a character that the
  next piece cannot start with, so the greedy match is the only one.
\<close>

definition caretNumber :: "jstring \<Rightarrow> jstring option" where
  \<comment> \<open>\<open>\^(\d+)\<close>\<close>
  "caretNumber s =
     (case s of
        c # r \<Rightarrow> if c = 0x5E \<and> takeWhile isDigit r \<noteq> [] then Some (dropWhile isDigit r) else None
      | [] \<Rightarrow> None)"

definition groupItem :: "jstring \<Rightarrow> jstring option" where
  \<comment> \<open>\<open>,\s*\^(\d+)\<close>\<close>
  "groupItem s =
     (case s of
        c # r \<Rightarrow> if c = 0x2C then caretNumber (dropWhile isWhiteSpace r) else None
      | [] \<Rightarrow> None)"

lemma caretNumber_shorter: "caretNumber s = Some r \<Longrightarrow> length r < length s"
  by (auto simp: caretNumber_def less_Suc_eq_le length_dropWhile_le split: list.splits if_splits)

lemma groupItem_shorter: "groupItem s = Some r \<Longrightarrow> length r < length s"
proof -
  assume a: "groupItem s = Some r"
  then obtain c t where s: "s = c # t" and cn: "caretNumber (dropWhile isWhiteSpace t) = Some r"
    by (auto simp: groupItem_def split: list.splits if_splits)
  from caretNumber_shorter[OF cn] have "length r < length (dropWhile isWhiteSpace t)" .
  also have "\<dots> \<le> length t" by (rule length_dropWhile_le)
  finally show ?thesis using s by simp
qed

function groupItems :: "jstring \<Rightarrow> jstring option" where
  \<comment> \<open>\<open>(?:,\s*\^(\d+))*]\<close>: further items, then the closing bracket\<close>
  "groupItems s =
     (case groupItem s of
        Some r \<Rightarrow> groupItems r
      | None \<Rightarrow> (case s of c # r \<Rightarrow> if c = 0x5D then Some r else None | [] \<Rightarrow> None))"
  by pat_completeness auto
termination
  by (relation "measure length") (auto simp: groupItem_shorter)

declare groupItems.simps [simp del]

text \<open>The whole grouped marker at the start of \<open>s\<close>: the matched text and the text after it.\<close>

definition matchGrouped :: "jstring \<Rightarrow> (jstring \<times> jstring) option" where
  "matchGrouped s =
     (case s of
        a # r \<Rightarrow>
          if a = 0x5B then
            (case caretNumber r of
               Some r1 \<Rightarrow>
                 (case groupItem r1 of
                    Some r2 \<Rightarrow>
                      (case groupItems r2 of
                         Some rest \<Rightarrow> Some (take (length s - length rest) s, rest)
                       | None \<Rightarrow> None)
                  | None \<Rightarrow> None)
             | None \<Rightarrow> None)
          else None
      | [] \<Rightarrow> None)"

text \<open>\<open>match.match(/\d+/g) || []\<close>: the maximal digit runs of a string, left to right.\<close>

function digitRuns :: "jstring \<Rightarrow> jstring list" where
  "digitRuns [] = []"
| "digitRuns (c # cs) =
     (if isDigit c then (c # takeWhile isDigit cs) # digitRuns (dropWhile isDigit cs)
      else digitRuns cs)"
  by pat_completeness auto
termination
  by (relation "measure length") (auto simp: less_Suc_eq_le length_dropWhile_le)

text \<open>The replacement callback of lines 30-34 and 39-43.\<close>

definition expandGroup :: "jstring \<Rightarrow> jstring" where
  "expandGroup m = (let numbers = digitRuns m in join (lit '', '') (map marker numbers))"

subsection \<open>The global scans and replacements\<close>

text \<open>
  A global regular expression is applied from left to right: at each position the match is
  tried; after a match the scan resumes behind it, otherwise one character further. Both
  expressions only match non-empty text.
\<close>

lemma matchFootnote_shorter: "matchFootnote s = Some (ds, rest) \<Longrightarrow> length rest < length s"
proof -
  assume a: "matchFootnote s = Some (ds, rest)"
  then obtain a' b r c where s: "s = a' # b # r" and d: "dropWhile isDigit r = c # rest"
    by (auto simp: matchFootnote_def split: list.splits if_splits)
  have "length (dropWhile isDigit r) \<le> length r" by (rule length_dropWhile_le)
  with d s show ?thesis by simp
qed

lemma groupItems_shorter: "groupItems s = Some r \<Longrightarrow> length r < length s"
proof (induction s rule: groupItems.induct)
  case (1 s)
  show ?case
  proof (cases "groupItem s")
    case None
    with "1.prems" show ?thesis
      by (subst (asm) groupItems.simps) (auto split: list.splits if_splits)
  next
    case (Some t)
    with "1.prems" have "groupItems t = Some r" by (subst (asm) groupItems.simps) simp
    with "1.IH"[OF Some] have "length r < length t" by simp
    with groupItem_shorter[OF Some] show ?thesis by simp
  qed
qed

lemma matchGrouped_shorter: "matchGrouped s = Some (m, rest) \<Longrightarrow> length rest < length s"
  by (auto simp: matchGrouped_def split: list.splits if_splits option.splits
           dest!: groupItems_shorter groupItem_shorter caretNumber_shorter)

text \<open>\<open>.replace(groupedFootnoteRegex, (match) => ...)\<close> of lines 30-34 and 39-43.\<close>

function expandGrouped :: "jstring \<Rightarrow> jstring" where
  "expandGrouped [] = []"
| "expandGrouped (c # cs) =
     (case matchGrouped (c # cs) of
        Some (m, rest) \<Rightarrow> expandGroup m @ expandGrouped rest
      | None \<Rightarrow> c # expandGrouped cs)"
  by pat_completeness auto
termination
  by (relation "measure length") (auto dest: matchGrouped_shorter)

text \<open>\<open>.replace(footnoteRegex, '')\<close> of line 35.\<close>

function stripFootnotes :: "jstring \<Rightarrow> jstring" where
  "stripFootnotes [] = []"
| "stripFootnotes (c # cs) =
     (case matchFootnote (c # cs) of
        Some (ds, rest) \<Rightarrow> stripFootnotes rest
      | None \<Rightarrow> c # stripFootnotes cs)"
  by pat_completeness auto
termination
  by (relation "measure length") (auto dest: matchFootnote_shorter)

text \<open>The \<open>while\<close> loop of lines 46-50: every capture of \<open>footnoteRegex\<close>, in order.\<close>

function extractFootnotes :: "jstring \<Rightarrow> jstring list" where
  "extractFootnotes [] = []"
| "extractFootnotes (c # cs) =
     (case matchFootnote (c # cs) of
        Some (ds, rest) \<Rightarrow> ds # extractFootnotes rest
      | None \<Rightarrow> extractFootnotes cs)"
  by pat_completeness auto
termination
  by (relation "measure length") (auto dest: matchFootnote_shorter)

text \<open>
  \<open>.replace(footnoteRegex, () => `[^${++currentIndex}]`)\<close> of lines 105-108; the counter
  \<open>currentIndex\<close> is threaded through the scan.
\<close>

function renumberFootnotes :: "nat \<Rightarrow> jstring \<Rightarrow> jstring" where
  "renumberFootnotes currentIndex [] = []"
| "renumberFootnotes currentIndex (c # cs) =
     (case matchFootnote (c # cs) of
        Some (ds, rest) \<Rightarrow>
          marker (showNat (currentIndex + 1)) @ renumberFootnotes (currentIndex + 1) rest
      | None \<Rightarrow> c # renumberFootnotes currentIndex cs)"
  by pat_completeness auto
termination
  by (relation "measure (\<lambda>(i, s). length s)") (auto dest: matchFootnote_shorter)


subsection \<open>References and their formatting\<close>

text \<open>
  Three things the function uses are the platform's, not the repository's: the Unicode
  tables behind \<open>\p{L}\<close> and \<open>\p{N}\<close> (predicates on code points) and the URL parser behind
  \<open>new URL(u).hostname\<close>, which either yields a host name or throws. They are parameters
  of the model.
\<close>

record platform =
  uniLetter :: "nat \<Rightarrow> bool"
  uniNumber :: "nat \<Rightarrow> bool"
  urlHostname :: "jstring \<Rightarrow> jstring option"

record reference =
  exactQuote :: jstring
  url :: "jstring option"

record AnswerAction =
  answer :: jstring
  references :: "reference list"

datatype error = InvalidURL

text \<open>
  \<open>.replace(/[^\p{L}\p{N}\s]/gu, ' ')\<close>. With the \<open>u\<close> flag the scan runs over code points:
  a high surrogate followed by a low surrogate is one character, anything else is a
  character by itself.
\<close>

definition isHighSurrogate :: "jschar \<Rightarrow> bool" where
  "isHighSurrogate c = (0xD800 \<le> c \<and> c \<le> 0xDBFF)"

definition isLowSurrogate :: "jschar \<Rightarrow> bool" where
  "isLowSurrogate c = (0xDC00 \<le> c \<and> c \<le> 0xDFFF)"

definition pairCodePoint :: "jschar \<Rightarrow> jschar \<Rightarrow> nat" where
  "pairCodePoint hi lo = 0x10000 + (unat hi - 0xD800) * 0x400 + (unat lo - 0xDC00)"

definition keepCodePoint :: "platform \<Rightarrow> nat \<Rightarrow> bool" where
  \<comment> \<open>the complement of the class \<open>[^\p{L}\p{N}\s]\<close>\<close>
  "keepCodePoint P cp =
     (uniLetter P cp \<or> uniNumber P cp \<or> (cp < 0x10000 \<and> isWhiteSpace (of_nat cp)))"

fun replaceNonWord :: "platform \<Rightarrow> jstring \<Rightarrow> jstring" where
  "replaceNonWord P [] = []"
| "replaceNonWord P [c] = (if keepCodePoint P (unat c) then [c] else [SP])"
| "replaceNonWord P (c # d # r) =
     (if isHighSurrogate c \<and> isLowSurrogate d then
        (if keepCodePoint P (pairCodePoint c d) then c # d # replaceNonWord P r
         else SP # replaceNonWord P r)
      else
        (if keepCodePoint P (unat c) then c # replaceNonWord P (d # r)
         else SP # replaceNonWord P (d # r)))"

text \<open>\<open>.replace(/\s+/g, ' ')\<close>.\<close>

function collapseWhiteSpace :: "jstring \<Rightarrow> jstring" where
  "collapseWhiteSpace [] = []"
| "collapseWhiteSpace (c # cs) =
     (if isWhiteSpace c then SP # collapseWhiteSpace (dropWhile isWhiteSpace cs)
      else c # collapseWhiteSpace cs)"
  by pat_completeness auto
termination
  by (relation "measure length") (auto simp: less_Suc_eq_le length_dropWhile_le)

definition cleanQuote :: "platform \<Rightarrow> jstring \<Rightarrow> jstring" where
  "cleanQuote P q = collapseWhiteSpace (replaceNonWord P q)"

text \<open>\<open>.replace('www.', '')\<close>: a string pattern replaces its first occurrence only.\<close>

fun removeFirst :: "jstring \<Rightarrow> jstring \<Rightarrow> jstring" where
  "removeFirst pat [] = []"
| "removeFirst pat (c # cs) =
     (if prefix pat (c # cs) then drop (length pat) (c # cs) else c # removeFirst pat cs)"

text \<open>
  The callback of \<open>refs.map\<close> (lines 13-24) for the reference at index \<open>i\<close>. A missing
  \<open>url\<close> makes \<open>ref.url?.startsWith('http')\<close> undefined, hence falsy.
\<close>

definition formatReference :: "platform \<Rightarrow> nat \<Rightarrow> reference \<Rightarrow> error + jstring" where
  "formatReference P i ref =
     (let citation = marker (showNat (i + 1)) @ lit '': '' @ cleanQuote P (exactQuote ref)
      in case url ref of
           None \<Rightarrow> Inr citation
         | Some u \<Rightarrow>
             if \<not> prefix (lit ''http'') u then Inr citation
             else (case urlHostname P u of
                     None \<Rightarrow> Inl InvalidURL
                   | Some hostname \<Rightarrow>
                       let domainName = removeFirst (lit ''www.'') hostname
                       in Inr (citation @ lit '' ['' @ domainName @ lit '']('' @ u @ lit '')'')))"

text \<open>\<open>refs.map\<close> with the index counting up; the first exception ends the map.\<close>

fun formatLines :: "platform \<Rightarrow> nat \<Rightarrow> reference list \<Rightarrow> error + jstring list" where
  "formatLines P i [] = Inr []"
| "formatLines P i (ref # refs) =
     (case formatReference P i ref of
        Inl e \<Rightarrow> Inl e
      | Inr line \<Rightarrow>
          (case formatLines P (i + 1) refs of
             Inl e \<Rightarrow> Inl e
           | Inr lines \<Rightarrow> Inr (line # lines)))"

definition formatReferences :: "platform \<Rightarrow> reference list \<Rightarrow> error + jstring" where
  "formatReferences P refs =
     (case formatLines P 0 refs of
        Inl e \<Rightarrow> Inl e
      | Inr lines \<Rightarrow> Inr (join [LF, LF] lines))"


subsection \<open>The reconciler\<close>

text \<open>
  \<open>needsCorrection\<close> of lines 71-74. It is computed only when \<open>footnotes\<close> is non-empty
  (line 53 has returned otherwise), so \<open>footnotes[0]\<close> is \<open>hd footnotes\<close>.
\<close>

definition needsCorrection :: "jstring list \<Rightarrow> nat \<Rightarrow> bool" where
  "needsCorrection footnotes n =
     ((length footnotes = n \<and> list_all (\<lambda>x. x = hd footnotes) footnotes) \<or>
      (list_all (\<lambda>x. x = hd footnotes) footnotes \<and> parseInt (hd footnotes) > n) \<or>
      (length footnotes > 0 \<and> list_all (\<lambda>x. parseInt x > n) footnotes))"

text \<open>\<open>Array.from({length: n}, (_, i) => `[^${i + 1}]`).join('')\<close> of lines 54-57.\<close>

definition appendedCitations :: "nat \<Rightarrow> jstring" where
  "appendedCitations n = concat (map (\<lambda>i. marker (showNat (i + 1))) [0..<n])"

text \<open>Lines 79-85: a marker for every index that no footnote of the text uses.\<close>

definition unusedReferences :: "jstring list \<Rightarrow> nat \<Rightarrow> jstring" where
  "unusedReferences footnotes n =
     (let usedIndices = set (map parseInt footnotes)
      in concat (map (\<lambda>i. if i + 1 \<notin> usedIndices then marker (showNat (i + 1)) else []) [0..<n]))"

text \<open>
  The function itself. Each template literal is written out with its line feeds; the one
  of lines 87-93 has a space after the answer. A URL that does not parse ends the call with
  the exception, in every branch that formats the references.
\<close>

definition buildMdFromAnswer :: "platform \<Rightarrow> AnswerAction \<Rightarrow> error + jstring" where
  "buildMdFromAnswer P a =
     (if references a = [] then
        Inr (stripFootnotes (expandGrouped (answer a)))
      else
        let processedAnswer = expandGrouped (answer a);
            footnotes = extractFootnotes processedAnswer;
            n = length (references a)
        in
          if footnotes = [] then
            (case formatReferences P (references a) of
               Inl e \<Rightarrow> Inl e
             | Inr refs \<Rightarrow>
                 Inr (trim ([LF] @ processedAnswer @ [LF, LF, GLYPH] @ appendedCitations n @
                            [LF, LF] @ refs @ [LF])))
          else if n > length footnotes \<and> \<not> needsCorrection footnotes n then
            (case formatReferences P (references a) of
               Inl e \<Rightarrow> Inl e
             | Inr refs \<Rightarrow>
                 Inr (trim ([LF] @ processedAnswer @ [SP, LF, LF, GLYPH] @
                            unusedReferences footnotes n @ [LF, LF] @ refs @ [LF])))
          else if \<not> needsCorrection footnotes n then
            (case formatReferences P (references a) of
               Inl e \<Rightarrow> Inl e
             | Inr refs \<Rightarrow> Inr (trim ([LF] @ processedAnswer @ [LF, LF] @ refs @ [LF])))
          else
            (let correctedAnswer = renumberFootnotes 0 processedAnswer
             in case formatReferences P (references a) of
                  Inl e \<Rightarrow> Inl e
                | Inr refs \<Rightarrow> Inr (trim ([LF] @ correctedAnswer @ [LF, LF] @ refs @ [LF]))))"

text \<open>
  A sample platform for evaluating concrete inputs: on ASCII text its letter and number
  tables are those of Unicode, and its host name is that of a URL of the plain shape
  \<open>http://host/...\<close> or \<open>https://host/...\<close> (anything else is rejected).
\<close>

definition sampleHostname :: "jstring \<Rightarrow> jstring option" where
  "sampleHostname u =
     (let rest = (if prefix (lit ''http://'') u then Some (drop 7 u)
                  else if prefix (lit ''https://'') u then Some (drop 8 u)
                  else None)
      in case rest of
           None \<Rightarrow> None
         | Some r \<Rightarrow>
             let host = takeWhile (\<lambda>c. c \<noteq> 0x2F) r
             in if host = [] then None else Some host)"

definition samplePlatform :: platform where
  "samplePlatform =
     \<lparr> uniLetter = (\<lambda>cp. (0x41 \<le> cp \<and> cp \<le> 0x5A) \<or> (0x61 \<le> cp \<and> cp \<le> 0x7A)),
       uniNumber = (\<lambda>cp. 0x30 \<le> cp \<and> cp \<le> 0x39),
       urlHostname = sampleHostname \<rparr>"

subsection \<open>Notions used in the statements\<close>

text \<open>
  The text that precedes the reference block in the four branches that have one (a name
  for what the template literals of lines 61-67, 87-93, 97-101 and 110-114 put before
  \<open>${references}\<close>).
\<close>

definition reconciledText :: "AnswerAction \<Rightarrow> jstring" where
  "reconciledText a =
     (let processedAnswer = expandGrouped (answer a);
          footnotes = extractFootnotes processedAnswer;
          n = length (references a)
      in if footnotes = [] then processedAnswer @ [LF, LF, GLYPH] @ appendedCitations n
         else if n > length footnotes \<and> \<not> needsCorrection footnotes n
           then processedAnswer @ [SP, LF, LF, GLYPH] @ unusedReferences footnotes n
         else if \<not> needsCorrection footnotes n then processedAnswer
         else renumberFootnotes 0 processedAnswer)"


text \<open>
  A reference whose \<open>url\<close> line 20 does not follow up: it is absent, or does not begin
  with \<open>http\<close>.
\<close>

definition urlNotFollowed :: "reference \<Rightarrow> bool" where
  "urlNotFollowed r = (case url r of None \<Rightarrow> True | Some u \<Rightarrow> \<not> prefix (lit ''http'') u)"

text \<open>
  The characters of a string as a regular expression with the \<open>u\<close> flag reads them: its
  code points, a surrogate pair counting as one.
\<close>

fun codePoints :: "jstring \<Rightarrow> nat list" where
  "codePoints [] = []"
| "codePoints [c] = [unat c]"
| "codePoints (c # d # r) =
     (if isHighSurrogate c \<and> isLowSurrogate d then pairCodePoint c d # codePoints r
      else unat c # codePoints (d # r))"

text \<open>
  The citation line of the reference at index \<open>i\<close> as the specification describes it:
  the label, the cleaned quote and, for a \<open>url\<close> that begins with \<open>http\<close>, the link.
\<close>

definition spec_citationLine :: "platform \<Rightarrow> nat \<Rightarrow> reference \<Rightarrow> jstring" where
  "spec_citationLine P i r =
     lit ''[^'' @ showNat (i + 1) @ lit '']: '' @ cleanQuote P (exactQuote r) @
     (case url r of
        None \<Rightarrow> []
      | Some u \<Rightarrow>
          if prefix (lit ''http'') u then
            (case urlHostname P u of
               None \<Rightarrow> []
             | Some hostname \<Rightarrow>
                 lit '' ['' @ removeFirst (lit ''www.'') hostname @ lit '']('' @ u @ lit '')'')
          else [])"

text \<open>
  A text in which every opening bracket begins a footnote marker: at every suffix that
  starts with \<open>[\<close>, \<open>footnoteRegex\<close> matches.
\<close>

definition everyBracketStartsMarker :: "jstring \<Rightarrow> bool" where
  "everyBracketStartsMarker t =
     list_all (\<lambda>u. case u of [] \<Rightarrow> True | c # _ \<Rightarrow> c = 0x5B \<longrightarrow> matchFootnote u \<noteq> None)
       (suffixes t)"

text \<open>A marker number that is a valid 1-based index into a list of \<open>n\<close> references.\<close>

definition validIndex :: "nat \<Rightarrow> jstring \<Rightarrow> bool" where
  "validIndex n m = (1 \<le> parseInt m \<and> parseInt m \<le> n)"


text \<open>
  A grouped marker as the specification describes it: \<open>[^d\<close>, then one or more items
  \<open>,w^d'\<close> (a comma, white space \<open>w\<close> that may be empty, a caret and a number), then \<open>]\<close>.
\<close>

definition groupedItem :: "jstring \<times> jstring \<Rightarrow> jstring" where
  "groupedItem it = 0x2C # fst it @ 0x5E # snd it"

definition groupedMarker :: "jstring \<Rightarrow> (jstring \<times> jstring) list \<Rightarrow> jstring" where
  "groupedMarker d items = 0x5B # 0x5E # d @ concat (map groupedItem items) @ [0x5D]"

definition isNumber :: "jstring \<Rightarrow> bool" where
  "isNumber d = (d \<noteq> [] \<and> list_all isDigit d)"

definition wellFormedItem :: "jstring \<times> jstring \<Rightarrow> bool" where
  "wellFormedItem it = (list_all isWhiteSpace (fst it) \<and> isNumber (snd it))"

text \<open>
  A character that continues a marker begun earlier: \<open>^\<close>, \<open>]\<close> or a digit.
\<close>

definition continuesMarker :: "jschar \<Rightarrow> bool" where
  "continuesMarker c = (c = 0x5E \<or> c = 0x5D \<or> isDigit c)"

text \<open>
  A text that contains a marker \<open>[^n]\<close>: \<open>footnoteRegex\<close> matches at one of its positions
  (lemma \<open>hasMarker_iff\<close>: some \<open>marker d\<close> with a number \<open>d\<close> is a part of the text).
\<close>

definition hasMarker :: "jstring \<Rightarrow> bool" where
  "hasMarker s = list_ex (\<lambda>u. matchFootnote u \<noteq> None) (suffixes s)"

text \<open>
  A text that contains a grouped marker: \<open>groupedFootnoteRegex\<close> matches at one of its
  positions (lemma \<open>hasGroupedMarker_iff\<close>: some \<open>groupedMarker d items\<close> with a number and
  well-formed items is a part of the text).
\<close>

definition hasGroupedMarker :: "jstring \<Rightarrow> bool" where
  "hasGroupedMarker s = list_ex (\<lambda>u. matchGrouped u \<noteq> None) (suffixes s)"

text \<open>
  A text in which no marker is immediately followed by a character that continues a
  marker: behind every match of \<open>footnoteRegex\<close> the text ends or goes on with another
  character (lemma \<open>markersSeparated_iff\<close>).
\<close>

definition markersSeparated :: "jstring \<Rightarrow> bool" where
  "markersSeparated t =
     list_all (\<lambda>u. case matchFootnote u of
                      None \<Rightarrow> True
                    | Some (d, q) \<Rightarrow> q = [] \<or> \<not> continuesMarker (hd q))
       (suffixes t)"

text \<open>
  A character that a marker begun earlier can end with before it is complete: \<open>[\<close>, \<open>^\<close>
  or a digit.
\<close>

definition opensMarker :: "jschar \<Rightarrow> bool" where
  "opensMarker c = (c = 0x5B \<or> c = 0x5E \<or> isDigit c)"

text \<open>
  A text in which no marker is immediately preceded by such a character: before every
  match of \<open>footnoteRegex\<close> the text begins or has another character (lemma
  \<open>markersSetOff_iff\<close>). The scan carries the character before the current position.
\<close>

fun setOffAfter :: "jschar option \<Rightarrow> jstring \<Rightarrow> bool" where
  "setOffAfter prev [] = True"
| "setOffAfter prev (c # cs) =
     ((matchFootnote (c # cs) = None \<or>
       (case prev of None \<Rightarrow> True | Some x \<Rightarrow> \<not> opensMarker x)) \<and>
      setOffAfter (Some c) cs)"

definition markersSetOff :: "jstring \<Rightarrow> bool" where
  "markersSetOff t = setOffAfter None t"


text \<open>The equations that evaluate the model on a concrete input.\<close>

lemmas ev = lit_def matchFootnote_def isDigit_def isWhiteSpace_def marker_def caretNumber_def groupItem_def
  groupItems.simps matchGrouped_def expandGroup_def showNat.simps digitChar_def parseInt_def digitValue_def
  trim_def trimStart_def trimEnd_def keepCodePoint_def isHighSurrogate_def isLowSurrogate_def pairCodePoint_def
  cleanQuote_def formatReference_def formatReferences_def needsCorrection_def appendedCitations_def
  unusedReferences_def buildMdFromAnswer_def sampleHostname_def samplePlatform_def Let_def upt_rec



section \<open>Properties of the reconciler\<close>

subsection \<open>Facts about trimming\<close>

lemma trimEnd_not_ws_last: "trimEnd s = [] \<or> \<not> isWhiteSpace (last (trimEnd s))"
proof (cases "dropWhile isWhiteSpace (rev s)")
  case Nil
  then show ?thesis by (simp add: trimEnd_def)
next
  case (Cons c cs)
  then have "\<not> isWhiteSpace c" using hd_dropWhile[of isWhiteSpace "rev s"] by fastforce
  with Cons show ?thesis by (simp add: trimEnd_def)
qed

lemma trimEnd_append_keep:
  assumes "\<exists>c \<in> set ys. \<not> isWhiteSpace c"
  shows "trimEnd (xs @ ys) = xs @ trimEnd ys"
proof -
  from assms have "dropWhile isWhiteSpace (rev ys @ rev xs) = dropWhile isWhiteSpace (rev ys) @ rev xs"
    by (auto simp: dropWhile_append)
  then show ?thesis by (simp add: trimEnd_def)
qed

lemma trimEnd_append_ws:
  assumes "\<forall>c \<in> set ys. isWhiteSpace c"
  shows "trimEnd (xs @ ys) = trimEnd xs"
  using assms by (simp add: trimEnd_def dropWhile_append)

lemma trimStart_append_keep:
  assumes "\<not> isWhiteSpace c"
  shows "trimStart (xs @ c # ys) = trimStart xs @ c # ys"
proof (cases "\<forall>x \<in> set xs. isWhiteSpace x")
  case True
  with assms show ?thesis by (simp add: trimStart_def dropWhile_append)
next
  case False
  then show ?thesis by (auto simp: trimStart_def dropWhile_append)
qed

lemma trimEnd_hd:
  assumes "s \<noteq> []" "\<not> isWhiteSpace (hd s)"
  shows "trimEnd s \<noteq> [] \<and> hd (trimEnd s) = hd s"
proof -
  from assms obtain c cs where s: "s = c # cs" and c: "\<not> isWhiteSpace c" by (cases s) auto
  have "trimEnd ([c] @ cs) = trimEnd [c] \<or> trimEnd ([c] @ cs) = [c] @ trimEnd cs"
  proof (cases "\<forall>x \<in> set cs. isWhiteSpace x")
    case True
    then have "trimEnd ([c] @ cs) = trimEnd [c]" by (rule trimEnd_append_ws)
    then show ?thesis by simp
  next
    case False
    then have "trimEnd ([c] @ cs) = [c] @ trimEnd cs" by (intro trimEnd_append_keep) blast
    then show ?thesis by simp
  qed
  moreover have "trimEnd [c] = [c]" using c by (simp add: trimEnd_def)
  ultimately show ?thesis using s by auto
qed

lemma trim_no_outer_ws:
  "trim s = [] \<or> (\<not> isWhiteSpace (hd (trim s)) \<and> \<not> isWhiteSpace (last (trim s)))"
proof (cases "trimStart s")
  case Nil
  then show ?thesis by (simp add: trim_def trimEnd_def)
next
  case (Cons c cs)
  then have c: "\<not> isWhiteSpace c"
    using hd_dropWhile[of isWhiteSpace s] by (fastforce simp: trimStart_def)
  with Cons trimEnd_hd[of "trimStart s"] have "trim s \<noteq> [] \<and> hd (trim s) = c"
    by (simp add: trim_def)
  with c trimEnd_not_ws_last[of "trimStart s"] show ?thesis by (simp add: trim_def)
qed

subsection \<open>Facts about the reference block\<close>

lemma formatLines_Inr:
  "formatLines P i refs = Inr lines \<Longrightarrow>
     length lines = length refs \<and>
     (\<forall>j < length refs. formatReference P (i + j) (refs ! j) = Inr (lines ! j))"
proof (induction refs arbitrary: i lines)
  case Nil
  then show ?case by simp
next
  case (Cons r refs)
  from Cons.prems obtain line rest where
    l: "formatReference P i r = Inr line" and
    r: "formatLines P (i + 1) refs = Inr rest" and
    e: "lines = line # rest"
    by (auto split: sum.splits)
  from Cons.IH[OF r] have len: "length rest = length refs"
    and ih: "\<forall>j < length refs. formatReference P (i + 1 + j) (refs ! j) = Inr (rest ! j)"
    by simp_all
  show ?case
  proof (intro conjI allI impI)
    show "length lines = length (r # refs)" using len e by simp
  next
    fix j assume "j < length (r # refs)"
    then show "formatReference P (i + j) ((r # refs) ! j) = Inr (lines ! j)"
      using l ih e by (cases j) simp_all
  qed
qed

lemma formatLines_Inl:
  "r \<in> set refs \<Longrightarrow> (\<And>j. formatReference P j r = Inl e) \<Longrightarrow> \<exists>e'. formatLines P i refs = Inl e'"
proof (induction refs arbitrary: i)
  case Nil
  then show ?case by simp
next
  case (Cons x refs)
  show ?case
  proof (cases "x = r")
    case True
    with Cons.prems(2)[of i] show ?thesis by simp
  next
    case False
    with Cons.prems have "r \<in> set refs" by simp
    from Cons.IH[OF this Cons.prems(2), of "i + 1"] show ?thesis
      by (auto split: sum.splits)
  qed
qed

lemma formatLines_total:
  "(\<And>r j. r \<in> set refs \<Longrightarrow> \<exists>line. formatReference P j r = Inr line) \<Longrightarrow>
     \<exists>lines. formatLines P i refs = Inr lines"
proof (induction refs arbitrary: i)
  case Nil
  then show ?case by simp
next
  case (Cons x refs)
  from Cons.prems[of x i] obtain line where l: "formatReference P i x = Inr line" by auto
  have "\<exists>lines. formatLines P (i + 1) refs = Inr lines"
    by (rule Cons.IH) (simp add: Cons.prems)
  with l show ?case by auto
qed

lemma formatLines_cong_platform:
  "(\<And>r j. r \<in> set refs \<Longrightarrow> formatReference P j r = formatReference Q j r) \<Longrightarrow>
     formatLines P i refs = formatLines Q i refs"
proof (induction refs arbitrary: i)
  case Nil
  then show ?case by simp
next
  case (Cons x refs)
  have "formatLines P (i + 1) refs = formatLines Q (i + 1) refs"
    by (rule Cons.IH) (simp add: Cons.prems)
  moreover have "formatReference P i x = formatReference Q i x"
    by (simp add: Cons.prems)
  ultimately show ?case by (simp only: formatLines.simps)
qed

lemma replaceNonWord_urlHostname:
  "replaceNonWord (P\<lparr>urlHostname := h\<rparr>) s = replaceNonWord P s"
  by (induction P s rule: replaceNonWord.induct) (simp_all add: keepCodePoint_def)

lemma cleanQuote_urlHostname: "cleanQuote (P\<lparr>urlHostname := h\<rparr>) q = cleanQuote P q"
  by (simp add: cleanQuote_def replaceNonWord_urlHostname)

lemma error_is_InvalidURL: "(e :: error) = InvalidURL"
  by (cases e) simp

text \<open>Every branch taken with a non-empty list formats the references first.\<close>

lemma buildMdFromAnswer_Inl:
  "references a \<noteq> [] \<Longrightarrow> formatReferences P (references a) = Inl e \<Longrightarrow>
     buildMdFromAnswer P a = Inl e"
  by (simp add: buildMdFromAnswer_def Let_def)

lemma buildMdFromAnswer_Inr_ex:
  "formatReferences P (references a) = Inr block \<Longrightarrow> \<exists>out. buildMdFromAnswer P a = Inr out"
  by (simp add: buildMdFromAnswer_def Let_def)

lemma buildMdFromAnswer_cong_platform:
  "formatReferences P (references a) = formatReferences Q (references a) \<Longrightarrow>
     buildMdFromAnswer P a = buildMdFromAnswer Q a"
  by (simp add: buildMdFromAnswer_def Let_def)

lemma buildMdFromAnswer_template:
  "references a \<noteq> [] \<Longrightarrow>
     buildMdFromAnswer P a =
       (case formatReferences P (references a) of
          Inl e \<Rightarrow> Inl e
        | Inr block \<Rightarrow> Inr (trim ([LF] @ reconciledText a @ [LF, LF] @ block @ [LF])))"
  by (simp add: buildMdFromAnswer_def reconciledText_def Let_def split: sum.splits)

lemma marker_Cons: "marker x = 0x5B # 0x5E # x @ [0x5D]"
  by (simp add: marker_def lit_def)

lemma join_Cons_nonempty: "join sep ((c # l) # ls) = c # tl (join sep ((c # l) # ls))"
  by (cases ls) simp_all

lemma formatReference_starts:
  "formatReference P i r = Inr line \<Longrightarrow> \<exists>t. line = 0x5B # t"
  by (auto simp: formatReference_def marker_Cons Let_def split: option.splits if_splits)

lemma formatReferences_starts:
  assumes "refs \<noteq> []" "formatReferences P refs = Inr block"
  shows "\<exists>t. block = 0x5B # t"
proof -
  from assms(2) obtain lines where fl: "formatLines P 0 refs = Inr lines"
    and b: "block = join [LF, LF] lines"
    by (auto simp: formatReferences_def split: sum.splits)
  from formatLines_Inr[OF fl] assms(1) have len: "length lines = length refs"
    and l0: "formatReference P 0 (refs ! 0) = Inr (lines ! 0)"
    by auto
  from len assms(1) obtain l ls where ls: "lines = l # ls" by (cases lines) auto
  with l0 formatReference_starts[of P 0 "refs ! 0" l] obtain t where "l = 0x5B # t" by auto
  with ls b join_Cons_nonempty[of "[LF, LF]" "0x5B" t ls] show ?thesis by auto
qed

lemma not_ws_bracket: "\<not> isWhiteSpace 0x5B"
  by (simp add: isWhiteSpace_def)

lemma ws_LF: "isWhiteSpace LF"
  by (simp add: isWhiteSpace_def)

text \<open>
  The result with the final \<open>trim\<close> carried out: it takes the leading white space of the
  text and the trailing white space of the reference block (whose first character is the
  bracket of its first label).
\<close>

lemma buildMdFromAnswer_layout:
  assumes ne: "references a \<noteq> []"
    and fr: "formatReferences P (references a) = Inr block"
  shows "buildMdFromAnswer P a =
           Inr (trimStart ([LF] @ reconciledText a @ [LF, LF]) @ trimEnd block)"
proof -
  from formatReferences_starts[OF ne fr] obtain t where b: "block = 0x5B # t" by blast
  let ?pre = "[LF] @ reconciledText a @ [LF, LF]"
  have "trimStart (?pre @ 0x5B # (t @ [LF])) = trimStart ?pre @ 0x5B # (t @ [LF])"
    by (rule trimStart_append_keep) (rule not_ws_bracket)
  then have 1: "trimStart (?pre @ block @ [LF]) = trimStart ?pre @ block @ [LF]"
    using b by simp
  have "\<exists>c \<in> set (block @ [LF]). \<not> isWhiteSpace c" using b not_ws_bracket by auto
  then have 2: "trimEnd (trimStart ?pre @ (block @ [LF])) = trimStart ?pre @ trimEnd (block @ [LF])"
    by (rule trimEnd_append_keep)
  have 3: "trimEnd (block @ [LF]) = trimEnd block"
    by (rule trimEnd_append_ws) (simp add: ws_LF)
  have "trim (?pre @ block @ [LF]) = trimStart ?pre @ trimEnd block"
    using 1 2 3 by (simp add: trim_def)
  then show ?thesis using buildMdFromAnswer_template[OF ne, of P] fr by simp
qed

lemma trimEnd_block_nonempty:
  assumes "references a \<noteq> []" "formatReferences P (references a) = Inr block"
  shows "trimEnd block \<noteq> [] \<and> hd (trimEnd block) = 0x5B"
proof -
  from formatReferences_starts[OF assms] obtain t where b: "block = 0x5B # t" by blast
  with trimEnd_hd[of block] not_ws_bracket show ?thesis by simp
qed

text \<open>The lines of the references whose \<open>url\<close> is not followed up, and where an exception comes from.\<close>

lemma formatReference_notFollowed:
  "urlNotFollowed r \<Longrightarrow>
     formatReference (P\<lparr>urlHostname := h\<rparr>) i r
       = Inr (lit ''[^'' @ showNat (i + 1) @ lit '']: '' @ cleanQuote P (exactQuote r))"
  by (auto simp: urlNotFollowed_def formatReference_def cleanQuote_urlHostname marker_def lit_def
                 Let_def split: option.splits)

lemma formatReference_InlD:
  "formatReference P i r = Inl e \<Longrightarrow>
     \<exists>u. url r = Some u \<and> prefix (lit ''http'') u \<and> urlHostname P u = None"
  by (auto simp: formatReference_def Let_def split: option.splits if_splits)

lemma formatLines_InlD:
  "formatLines P i refs = Inl e \<Longrightarrow> \<exists>r \<in> set refs. \<exists>j e'. formatReference P j r = Inl e'"
proof (induction refs arbitrary: i e)
  case Nil
  then show ?case by simp
next
  case (Cons x refs)
  show ?case
  proof (cases "formatReference P i x")
    case (Inl e')
    then show ?thesis by auto
  next
    case (Inr line)
    with Cons.prems obtain e2 where "formatLines P (i + 1) refs = Inl e2"
      by (auto split: sum.splits)
    from Cons.IH[OF this] show ?thesis by auto
  qed
qed

lemma buildMdFromAnswer_InlD:
  assumes "buildMdFromAnswer P a = Inl e"
  shows "\<exists>r \<in> set (references a). \<exists>u. url r = Some u \<and> prefix (lit ''http'') u \<and> urlHostname P u = None"
proof -
  from assms have ne: "references a \<noteq> []" by (auto simp: buildMdFromAnswer_def)
  from assms buildMdFromAnswer_template[OF ne, of P]
  obtain e' where "formatReferences P (references a) = Inl e'" by (auto split: sum.splits)
  then obtain e2 where "formatLines P 0 (references a) = Inl e2"
    by (auto simp: formatReferences_def split: sum.splits)
  from formatLines_InlD[OF this] obtain r j e3 where
    r: "r \<in> set (references a)" and f: "formatReference P j r = Inl e3" by blast
  from formatReference_InlD[OF f] r show ?thesis by blast
qed

lemma formatReference_agree:
  assumes "\<And>u. url r = Some u \<Longrightarrow> prefix (lit ''http'') u \<Longrightarrow> h u = urlHostname P u"
  shows "formatReference (P\<lparr>urlHostname := h\<rparr>) j r = formatReference P j r"
proof (cases "url r")
  case None
  then show ?thesis by (simp add: formatReference_def cleanQuote_urlHostname Let_def)
next
  case (Some u)
  show ?thesis
  proof (cases "prefix (lit ''http'') u")
    case True
    with assms[OF Some] have "h u = urlHostname P u" by simp
    with Some True show ?thesis by (simp add: formatReference_def cleanQuote_urlHostname Let_def)
  next
    case False
    with Some show ?thesis by (simp add: formatReference_def cleanQuote_urlHostname Let_def)
  qed
qed

lemma buildMdFromAnswer_agree:
  assumes "\<forall>r \<in> set (references a). \<forall>u. url r = Some u \<and> prefix (lit ''http'') u \<longrightarrow> h u = urlHostname P u"
  shows "buildMdFromAnswer (P\<lparr>urlHostname := h\<rparr>) a = buildMdFromAnswer P a"
proof -
  have "\<And>r j. r \<in> set (references a) \<Longrightarrow>
          formatReference (P\<lparr>urlHostname := h\<rparr>) j r = formatReference P j r"
    using assms by (intro formatReference_agree) blast
  then have "formatLines (P\<lparr>urlHostname := h\<rparr>) 0 (references a) = formatLines P 0 (references a)"
    by (rule formatLines_cong_platform)
  then have "formatReferences (P\<lparr>urlHostname := h\<rparr>) (references a) = formatReferences P (references a)"
    by (simp add: formatReferences_def)
  then show ?thesis by (rule buildMdFromAnswer_cong_platform)
qed

lemma buildMdFromAnswer_unfollowed_lines:
  assumes ne: "references a \<noteq> []" and b: "buildMdFromAnswer P a = Inr out"
  shows "\<exists>lines. out = trimStart ([LF] @ reconciledText a @ [LF, LF]) @ trimEnd (join [LF, LF] lines) \<and>
           length lines = length (references a) \<and>
           (\<forall>i < length (references a). urlNotFollowed (references a ! i) \<longrightarrow>
              lines ! i = lit ''[^'' @ showNat (i + 1) @ lit '']: '' @
                          cleanQuote P (exactQuote (references a ! i)))"
proof -
  from b buildMdFromAnswer_template[OF ne, of P]
  obtain block where fr: "formatReferences P (references a) = Inr block" by (auto split: sum.splits)
  then obtain lines where fl: "formatLines P 0 (references a) = Inr lines"
    and bl: "block = join [LF, LF] lines"
    by (auto simp: formatReferences_def split: sum.splits)
  from formatLines_Inr[OF fl] have len: "length lines = length (references a)"
    and ln: "\<forall>j < length (references a). formatReference P j (references a ! j) = Inr (lines ! j)"
    by simp_all
  from buildMdFromAnswer_layout[OF ne fr] b bl
  have o: "out = trimStart ([LF] @ reconciledText a @ [LF, LF]) @ trimEnd (join [LF, LF] lines)"
    by simp
  have "\<forall>i < length (references a). urlNotFollowed (references a ! i) \<longrightarrow>
          lines ! i = lit ''[^'' @ showNat (i + 1) @ lit '']: '' @
                      cleanQuote P (exactQuote (references a ! i))"
  proof (intro allI impI)
    fix i assume i: "i < length (references a)" and u: "urlNotFollowed (references a ! i)"
    from formatReference_notFollowed[OF u, where P = P and h = "urlHostname P" and i = i]
    have "formatReference P i (references a ! i)
            = Inr (lit ''[^'' @ showNat (i + 1) @ lit '']: '' @ cleanQuote P (exactQuote (references a ! i)))"
      by simp
    with ln i show "lines ! i = lit ''[^'' @ showNat (i + 1) @ lit '']: '' @
                      cleanQuote P (exactQuote (references a ! i))" by simp
  qed
  with o len show ?thesis by blast
qed

text \<open>
  C7. If some reference of the list has a \<open>url\<close> that begins with \<open>http\<close> and that the URL
  parser rejects, the call ends with the parser's exception (nothing catches it), and an
  exception has no other origin. For a reference that has no \<open>url\<close>, or one that does not
  begin with \<open>http\<close>, the citation line is the label and the cleaned quote with no link
  appended, whatever the parser would answer; in the reference block of a returned string
  (of a list that may mix both kinds of reference) the lines of these references are
  those. The parser is consulted on the urls that begin with \<open>http\<close> only: a parser that
  agrees with the platform's on those gives the same result, so with no such url in the
  list the call returns a string and the result is the same whatever the parser is.
\<close>

theorem C7_url_errors:
  "(r \<in> set (references a) \<and> url r = Some u \<and> prefix (lit ''http'') u \<and> urlHostname P u = None
      \<longrightarrow> buildMdFromAnswer P a = Inl InvalidURL) \<and>
   (buildMdFromAnswer P a = Inl e
      \<longrightarrow> (\<exists>x \<in> set (references a). \<exists>v. url x = Some v \<and> prefix (lit ''http'') v \<and>
                                          urlHostname P v = None)) \<and>
   (urlNotFollowed q
      \<longrightarrow> (\<forall>h. formatReference (P\<lparr>urlHostname := h\<rparr>) i q
                 = Inr (lit ''[^'' @ showNat (i + 1) @ lit '']: '' @ cleanQuote P (exactQuote q)))) \<and>
   (references a \<noteq> [] \<and> buildMdFromAnswer P a = Inr out
      \<longrightarrow> (\<exists>lines. out = trimStart ([LF] @ reconciledText a @ [LF, LF]) @ trimEnd (join [LF, LF] lines) \<and>
                   length lines = length (references a) \<and>
                   (\<forall>j < length (references a). urlNotFollowed (references a ! j) \<longrightarrow>
                      lines ! j = lit ''[^'' @ showNat (j + 1) @ lit '']: '' @
                                  cleanQuote P (exactQuote (references a ! j))))) \<and>
   ((\<forall>x \<in> set (references a). \<forall>v. url x = Some v \<and> prefix (lit ''http'') v \<longrightarrow> g v = urlHostname P v)
      \<longrightarrow> buildMdFromAnswer (P\<lparr>urlHostname := g\<rparr>) a = buildMdFromAnswer P a) \<and>
   (list_all urlNotFollowed (references a)
      \<longrightarrow> (\<exists>out. buildMdFromAnswer P a = Inr out) \<and>
          (\<forall>h. buildMdFromAnswer (P\<lparr>urlHostname := h\<rparr>) a = buildMdFromAnswer P a))"
proof (intro conjI impI allI)
  assume h: "r \<in> set (references a) \<and> url r = Some u \<and> prefix (lit ''http'') u \<and> urlHostname P u = None"
  then have "\<And>j. formatReference P j r = Inl InvalidURL"
    by (simp add: formatReference_def)
  with h obtain e where "formatLines P 0 (references a) = Inl e"
    using formatLines_Inl[of r "references a" P InvalidURL 0] by blast
  then have "formatReferences P (references a) = Inl InvalidURL"
    by (simp add: formatReferences_def error_is_InvalidURL[of e])
  moreover from h have "references a \<noteq> []" by auto
  ultimately show "buildMdFromAnswer P a = Inl InvalidURL"
    by (simp add: buildMdFromAnswer_Inl)
next
  assume "buildMdFromAnswer P a = Inl e"
  then show "\<exists>x \<in> set (references a). \<exists>v. url x = Some v \<and> prefix (lit ''http'') v \<and>
               urlHostname P v = None"
    by (rule buildMdFromAnswer_InlD)
next
  fix h
  assume "urlNotFollowed q"
  then show "formatReference (P\<lparr>urlHostname := h\<rparr>) i q
               = Inr (lit ''[^'' @ showNat (i + 1) @ lit '']: '' @ cleanQuote P (exactQuote q))"
    by (rule formatReference_notFollowed)
next
  assume "references a \<noteq> [] \<and> buildMdFromAnswer P a = Inr out"
  then show "\<exists>lines. out = trimStart ([LF] @ reconciledText a @ [LF, LF]) @ trimEnd (join [LF, LF] lines) \<and>
               length lines = length (references a) \<and>
               (\<forall>j < length (references a). urlNotFollowed (references a ! j) \<longrightarrow>
                  lines ! j = lit ''[^'' @ showNat (j + 1) @ lit '']: '' @
                              cleanQuote P (exactQuote (references a ! j)))"
    using buildMdFromAnswer_unfollowed_lines[of a P out] by blast
next
  assume "\<forall>x \<in> set (references a). \<forall>v. url x = Some v \<and> prefix (lit ''http'') v \<longrightarrow> g v = urlHostname P v"
  then show "buildMdFromAnswer (P\<lparr>urlHostname := g\<rparr>) a = buildMdFromAnswer P a"
    by (rule buildMdFromAnswer_agree)
next
  assume h: "list_all urlNotFollowed (references a)"
  have "\<And>r j. r \<in> set (references a) \<Longrightarrow> \<exists>line. formatReference P j r = Inr line"
    using h by (auto simp: list_all_iff urlNotFollowed_def formatReference_def Let_def split: option.splits)
  then obtain lines where "formatLines P 0 (references a) = Inr lines"
    using formatLines_total[of "references a" P 0] by blast
  then have "formatReferences P (references a) = Inr (join [LF, LF] lines)"
    by (simp add: formatReferences_def)
  then show "\<exists>out. buildMdFromAnswer P a = Inr out" by (rule buildMdFromAnswer_Inr_ex)
next
  fix h
  assume n: "list_all urlNotFollowed (references a)"
  then have "\<forall>x \<in> set (references a). \<forall>v. url x = Some v \<and> prefix (lit ''http'') v \<longrightarrow> h v = urlHostname P v"
    by (auto simp: list_all_iff urlNotFollowed_def split: option.splits)
  then show "buildMdFromAnswer (P\<lparr>urlHostname := h\<rparr>) a = buildMdFromAnswer P a"
    by (rule buildMdFromAnswer_agree)
qed

theorem C7_url_errors_witness:
  "buildMdFromAnswer samplePlatform
     \<lparr>answer = lit ''x'', references = [\<lparr>exactQuote = lit ''q'', url = Some (lit ''httpbin.org/get'')\<rparr>]\<rparr>
     = Inl InvalidURL \<and>
   (\<exists>x \<in> set [\<lparr>exactQuote = lit ''q'', url = Some (lit ''httpbin.org/get'')\<rparr>].
      \<exists>v. url x = Some v \<and> prefix (lit ''http'') v \<and> urlHostname samplePlatform v = None) \<and>
   formatReference (samplePlatform\<lparr>urlHostname := \<lambda>u. Some (lit ''www.c.org'')\<rparr>) 2
       \<lparr>exactQuote = lit ''r'', url = Some (lit ''ftp://a.b/c'')\<rparr>
     = Inr (lit ''[^3]: r'') \<and>
   buildMdFromAnswer samplePlatform
     \<lparr>answer = lit ''x[^2]'',
      references = [\<lparr>exactQuote = lit ''p'', url = None\<rparr>,
                    \<lparr>exactQuote = lit ''q'', url = Some (lit ''http://www.b.org/x'')\<rparr>,
                    \<lparr>exactQuote = lit ''r'', url = Some (lit ''ftp://a.b/c'')\<rparr>]\<rparr>
     = Inr (lit ''x[^2] '' @ [LF, LF, GLYPH] @ lit ''[^1][^3]'' @ [LF, LF] @
            join [LF, LF] [lit ''[^1]: p'', lit ''[^2]: q [b.org](http://www.b.org/x)'', lit ''[^3]: r'']) \<and>
   (\<exists>lines. lit ''x[^2] '' @ [LF, LF, GLYPH] @ lit ''[^1][^3]'' @ [LF, LF] @
            join [LF, LF] [lit ''[^1]: p'', lit ''[^2]: q [b.org](http://www.b.org/x)'', lit ''[^3]: r'']
            = trimStart ([LF] @ reconciledText
                \<lparr>answer = lit ''x[^2]'',
                 references = [\<lparr>exactQuote = lit ''p'', url = None\<rparr>,
                    \<lparr>exactQuote = lit ''q'', url = Some (lit ''http://www.b.org/x'')\<rparr>,
                    \<lparr>exactQuote = lit ''r'', url = Some (lit ''ftp://a.b/c'')\<rparr>]\<rparr> @ [LF, LF])
              @ trimEnd (join [LF, LF] lines) \<and>
            length lines = 3 \<and> lines ! 0 = lit ''[^1]: p'' \<and> lines ! 2 = lit ''[^3]: r'') \<and>
   buildMdFromAnswer
       (samplePlatform\<lparr>urlHostname := \<lambda>u. if prefix (lit ''http'') u then sampleHostname u
                                          else Some (lit ''www.c.org'')\<rparr>)
     \<lparr>answer = lit ''x[^2]'',
      references = [\<lparr>exactQuote = lit ''p'', url = None\<rparr>,
                    \<lparr>exactQuote = lit ''q'', url = Some (lit ''http://www.b.org/x'')\<rparr>,
                    \<lparr>exactQuote = lit ''r'', url = Some (lit ''ftp://a.b/c'')\<rparr>]\<rparr>
     = buildMdFromAnswer samplePlatform
         \<lparr>answer = lit ''x[^2]'',
          references = [\<lparr>exactQuote = lit ''p'', url = None\<rparr>,
                    \<lparr>exactQuote = lit ''q'', url = Some (lit ''http://www.b.org/x'')\<rparr>,
                    \<lparr>exactQuote = lit ''r'', url = Some (lit ''ftp://a.b/c'')\<rparr>]\<rparr> \<and>
   (\<exists>out. buildMdFromAnswer samplePlatform
     \<lparr>answer = lit ''x'',
      references = [\<lparr>exactQuote = lit ''q'', url = None\<rparr>,
                    \<lparr>exactQuote = lit ''q'', url = Some (lit ''ftp://a.b/c'')\<rparr>]\<rparr> = Inr out) \<and>
   buildMdFromAnswer (samplePlatform\<lparr>urlHostname := \<lambda>u. None\<rparr>)
     \<lparr>answer = lit ''x'',
      references = [\<lparr>exactQuote = lit ''q'', url = None\<rparr>,
                    \<lparr>exactQuote = lit ''q'', url = Some (lit ''ftp://a.b/c'')\<rparr>]\<rparr>
     = buildMdFromAnswer samplePlatform
         \<lparr>answer = lit ''x'',
          references = [\<lparr>exactQuote = lit ''q'', url = None\<rparr>,
                        \<lparr>exactQuote = lit ''q'', url = Some (lit ''ftp://a.b/c'')\<rparr>]\<rparr>"
proof -
  let ?bad = "\<lparr>exactQuote = lit ''q'', url = Some (lit ''httpbin.org/get'')\<rparr>"
  let ?a1 = "\<lparr>answer = lit ''x'', references = [?bad]\<rparr>"
  let ?a2 = "\<lparr>answer = lit ''x'',
      references = [\<lparr>exactQuote = lit ''q'', url = None\<rparr>,
                    \<lparr>exactQuote = lit ''q'', url = Some (lit ''ftp://a.b/c'')\<rparr>]\<rparr>"
  let ?ftp = "\<lparr>exactQuote = lit ''r'', url = Some (lit ''ftp://a.b/c'')\<rparr>"
  let ?a3 = "\<lparr>answer = lit ''x[^2]'',
      references = [\<lparr>exactQuote = lit ''p'', url = None\<rparr>,
                    \<lparr>exactQuote = lit ''q'', url = Some (lit ''http://www.b.org/x'')\<rparr>, ?ftp]\<rparr>"
  let ?out = "lit ''x[^2] '' @ [LF, LF, GLYPH] @ lit ''[^1][^3]'' @ [LF, LF] @
            join [LF, LF] [lit ''[^1]: p'', lit ''[^2]: q [b.org](http://www.b.org/x)'', lit ''[^3]: r'']"
  let ?g = "\<lambda>u. if prefix (lit ''http'') u then sampleHostname u else Some (lit ''www.c.org'')"
  note raised = C7_url_errors[THEN conjunct1, rule_format]
  note only = C7_url_errors[THEN conjunct2, THEN conjunct1, rule_format]
  note line = C7_url_errors[THEN conjunct2, THEN conjunct2, THEN conjunct1, rule_format]
  note block = C7_url_errors[THEN conjunct2, THEN conjunct2, THEN conjunct2, THEN conjunct1, rule_format]
  note agree = C7_url_errors[THEN conjunct2, THEN conjunct2, THEN conjunct2, THEN conjunct2,
                             THEN conjunct1, rule_format]
  note none = C7_url_errors[THEN conjunct2, THEN conjunct2, THEN conjunct2, THEN conjunct2,
                            THEN conjunct2, rule_format]
  have h1: "?bad \<in> set (references ?a1) \<and> url ?bad = Some (lit ''httpbin.org/get'') \<and>
            prefix (lit ''http'') (lit ''httpbin.org/get'') \<and>
            urlHostname samplePlatform (lit ''httpbin.org/get'') = None"
    by (simp add: lit_def samplePlatform_def sampleHostname_def)
  have 1: "buildMdFromAnswer samplePlatform ?a1 = Inl InvalidURL"
    by (rule raised[where r = ?bad and u = "lit ''httpbin.org/get''"]) (rule h1)
  have 2: "\<exists>x \<in> set (references ?a1). \<exists>v. url x = Some v \<and> prefix (lit ''http'') v \<and>
             urlHostname samplePlatform v = None"
    by (rule only[where e = InvalidURL]) (rule 1)
  have nf: "urlNotFollowed ?ftp" by (simp add: urlNotFollowed_def lit_def)
  have "formatReference (samplePlatform\<lparr>urlHostname := \<lambda>u. Some (lit ''www.c.org'')\<rparr>) 2 ?ftp
          = Inr (lit ''[^'' @ showNat (2 + 1) @ lit '']: '' @ cleanQuote samplePlatform (exactQuote ?ftp))"
    by (rule line) (rule nf)
  then have 3: "formatReference (samplePlatform\<lparr>urlHostname := \<lambda>u. Some (lit ''www.c.org'')\<rparr>) 2 ?ftp
          = Inr (lit ''[^3]: r'')"
    by (simp add: ev)
  have e3: "buildMdFromAnswer samplePlatform ?a3 = Inr ?out"
    by (simp add: ev)
  have "\<exists>lines. ?out = trimStart ([LF] @ reconciledText ?a3 @ [LF, LF]) @ trimEnd (join [LF, LF] lines) \<and>
          length lines = length (references ?a3) \<and>
          (\<forall>j < length (references ?a3). urlNotFollowed (references ?a3 ! j) \<longrightarrow>
             lines ! j = lit ''[^'' @ showNat (j + 1) @ lit '']: '' @
                         cleanQuote samplePlatform (exactQuote (references ?a3 ! j)))"
    by (rule block) (simp add: e3)
  then obtain lines where
    o: "?out = trimStart ([LF] @ reconciledText ?a3 @ [LF, LF]) @ trimEnd (join [LF, LF] lines)"
    and len: "length lines = 3"
    and ls: "\<forall>j < 3. urlNotFollowed (references ?a3 ! j) \<longrightarrow>
               lines ! j = lit ''[^'' @ showNat (j + 1) @ lit '']: '' @
                           cleanQuote samplePlatform (exactQuote (references ?a3 ! j))"
    by auto
  have "urlNotFollowed (references ?a3 ! 0)" "urlNotFollowed (references ?a3 ! 2)"
    by (simp_all add: urlNotFollowed_def lit_def)
  with ls have "lines ! 0 = lit ''[^'' @ showNat (0 + 1) @ lit '']: '' @
                   cleanQuote samplePlatform (exactQuote (references ?a3 ! 0))"
     and "lines ! 2 = lit ''[^'' @ showNat (2 + 1) @ lit '']: '' @
                   cleanQuote samplePlatform (exactQuote (references ?a3 ! 2))"
    by simp_all
  then have l0: "lines ! 0 = lit ''[^1]: p''" and l2: "lines ! 2 = lit ''[^3]: r''"
    by (simp_all add: ev)
  from o len l0 l2 have 4:
    "\<exists>lines. ?out = trimStart ([LF] @ reconciledText ?a3 @ [LF, LF]) @ trimEnd (join [LF, LF] lines) \<and>
       length lines = 3 \<and> lines ! 0 = lit ''[^1]: p'' \<and> lines ! 2 = lit ''[^3]: r''"
    by blast
  have 5: "buildMdFromAnswer (samplePlatform\<lparr>urlHostname := ?g\<rparr>) ?a3 = buildMdFromAnswer samplePlatform ?a3"
    by (rule agree) (simp add: samplePlatform_def)
  have h2: "list_all urlNotFollowed (references ?a2)"
    by (simp add: urlNotFollowed_def lit_def)
  from none[OF h2]
  have 6: "(\<exists>out. buildMdFromAnswer samplePlatform ?a2 = Inr out) \<and>
           (\<forall>h. buildMdFromAnswer (samplePlatform\<lparr>urlHostname := h\<rparr>) ?a2
                  = buildMdFromAnswer samplePlatform ?a2)"
    by blast
  then have 7: "buildMdFromAnswer (samplePlatform\<lparr>urlHostname := \<lambda>u. None\<rparr>) ?a2
                  = buildMdFromAnswer samplePlatform ?a2"
    by blast
  from 1 2 3 e3 4 5 6 7 show ?thesis by simp
qed

text \<open>
  C8 (as amended). With a non-empty reference list, a string that the reconciler returns is
  non-empty and has no white space at its start or at its end. (With an empty list the
  text is returned as it is, untrimmed.)
\<close>

theorem C8_trimmed_with_references:
  "references a \<noteq> [] \<and> buildMdFromAnswer P a = Inr out \<longrightarrow>
     out \<noteq> [] \<and> \<not> isWhiteSpace (hd out) \<and> \<not> isWhiteSpace (last out)"
proof
  assume h: "references a \<noteq> [] \<and> buildMdFromAnswer P a = Inr out"
  then obtain block where fr: "formatReferences P (references a) = Inr block"
    and o: "out = trim ([LF] @ reconciledText a @ [LF, LF] @ block @ [LF])"
    using buildMdFromAnswer_template[of a P] by (auto split: sum.splits)
  from h fr buildMdFromAnswer_layout[of a P block]
  have "out = trimStart ([LF] @ reconciledText a @ [LF, LF]) @ trimEnd block" by simp
  with trimEnd_block_nonempty[of a P block] h fr have "out \<noteq> []" by simp
  with o trim_no_outer_ws[of "[LF] @ reconciledText a @ [LF, LF] @ block @ [LF]"]
  show "out \<noteq> [] \<and> \<not> isWhiteSpace (hd out) \<and> \<not> isWhiteSpace (last out)" by simp
qed

text \<open>
  The claim as stated (empty list included) fails: with no references the answer
  \<open>" hi "\<close> comes back with its leading and trailing space.
\<close>

theorem C8_untrimmed_without_references:
  "buildMdFromAnswer samplePlatform \<lparr>answer = lit '' hi '', references = []\<rparr> = Inr (lit '' hi '') \<and>
   isWhiteSpace (hd (lit '' hi '')) \<and> isWhiteSpace (last (lit '' hi ''))"
  by (simp add: ev)

theorem C8_trimmed_with_references_witness:
  "references \<lparr>answer = lit '' hi '', references = [\<lparr>exactQuote = lit ''q'', url = None\<rparr>]\<rparr> \<noteq> [] \<and>
   buildMdFromAnswer samplePlatform
     \<lparr>answer = lit '' hi '', references = [\<lparr>exactQuote = lit ''q'', url = None\<rparr>]\<rparr>
     = Inr (lit ''hi '' @ [LF, LF, GLYPH] @ lit ''[^1]'' @ [LF, LF] @ lit ''[^1]: q'') \<and>
   \<not> isWhiteSpace (hd (lit ''hi '' @ [LF, LF, GLYPH] @ lit ''[^1]'' @ [LF, LF] @ lit ''[^1]: q'')) \<and>
   \<not> isWhiteSpace (last (lit ''hi '' @ [LF, LF, GLYPH] @ lit ''[^1]'' @ [LF, LF] @ lit ''[^1]: q''))"
proof -
  let ?a = "\<lparr>answer = lit '' hi '', references = [\<lparr>exactQuote = lit ''q'', url = None\<rparr>]\<rparr>"
  let ?out = "lit ''hi '' @ [LF, LF, GLYPH] @ lit ''[^1]'' @ [LF, LF] @ lit ''[^1]: q''"
  have e: "buildMdFromAnswer samplePlatform ?a = Inr ?out"
    by (simp add: ev)
  have n: "references ?a \<noteq> []" by simp
  from C8_trimmed_with_references[of ?a samplePlatform ?out] e n
  have "?out \<noteq> [] \<and> \<not> isWhiteSpace (hd ?out) \<and> \<not> isWhiteSpace (last ?out)" by blast
  with e n show ?thesis by blast
qed

subsection \<open>Facts about the cleaning of a quote\<close>

lemma codePoints_not_high:
  "\<not> isHighSurrogate c \<Longrightarrow> codePoints (c # s) = unat c # codePoints s"
  by (cases s) simp_all

lemma codePoints_not_low:
  "s = [] \<or> \<not> isLowSurrogate (hd s) \<Longrightarrow> codePoints (c # s) = unat c # codePoints s"
  by (cases s) auto

lemma SP_not_surrogate: "\<not> isHighSurrogate SP" "\<not> isLowSurrogate SP"
  by (simp_all add: isHighSurrogate_def isLowSurrogate_def)

lemma replaceNonWord_hd:
  "replaceNonWord P (d # r) = y # ys \<Longrightarrow> y = d \<or> y = SP"
  by (cases r) (auto split: if_splits)

lemma replaceNonWord_Nil_iff: "replaceNonWord P s = [] \<longleftrightarrow> s = []"
  by (induction P s rule: replaceNonWord.induct) auto

lemma codePoints_replaceNonWord:
  "codePoints (replaceNonWord P s) =
     map (\<lambda>cp. if keepCodePoint P cp then cp else 0x20) (codePoints s)"
proof (induction P s rule: replaceNonWord.induct)
  case (1 P)
  show ?case by simp
next
  case (2 P c)
  show ?case by simp
next
  case (3 P c d r)
  show ?case
  proof (cases "isHighSurrogate c \<and> isLowSurrogate d")
    case True
    with 3 show ?thesis by (simp add: codePoints_not_high SP_not_surrogate)
  next
    case False
    let ?Y = "replaceNonWord P (d # r)"
    obtain y ys where Y: "?Y = y # ys" using replaceNonWord_Nil_iff[of P "d # r"] by (cases ?Y) auto
    from replaceNonWord_hd[OF Y] have "y = d \<or> y = SP" .
    with False have nl: "\<not> (isHighSurrogate c \<and> isLowSurrogate y)"
      by (auto simp: SP_not_surrogate)
    have keep: "codePoints (c # ?Y) = unat c # codePoints ?Y"
      using nl Y by auto
    have repl: "codePoints (SP # ?Y) = 0x20 # codePoints ?Y"
      by (simp add: codePoints_not_high SP_not_surrogate)
    have ih: "codePoints ?Y = map (\<lambda>cp. if keepCodePoint P cp then cp else 0x20) (codePoints (d # r))"
      using False "3.IH"(3,4) by (cases "keepCodePoint P (unat c)") blast+
    have cp: "codePoints (c # d # r) = unat c # codePoints (d # r)"
      using False by auto
    have rw: "replaceNonWord P (c # d # r) = (if keepCodePoint P (unat c) then c # ?Y else SP # ?Y)"
      using False by auto
    show ?thesis
      unfolding rw cp using keep repl ih by simp
  qed
qed

lemma collapseWhiteSpace_no_ws:
  "\<forall>c \<in> set s. \<not> isWhiteSpace c \<Longrightarrow> collapseWhiteSpace s = s"
  by (induction s) simp_all

lemma collapseWhiteSpace_append:
  "xs = [] \<or> \<not> isWhiteSpace (last xs) \<Longrightarrow>
     collapseWhiteSpace (xs @ t) = collapseWhiteSpace xs @ collapseWhiteSpace t"
proof (induction xs rule: collapseWhiteSpace.induct)
  case 1
  show ?case by simp
next
  case (2 c cs)
  show ?case
  proof (cases "isWhiteSpace c")
    case True
    with "2.prems" have ne: "cs \<noteq> []" and l: "\<not> isWhiteSpace (last cs)" by (auto split: if_splits)
    then have ex: "\<exists>x \<in> set cs. \<not> isWhiteSpace x" using last_in_set by blast
    then have d: "dropWhile isWhiteSpace (cs @ t) = dropWhile isWhiteSpace cs @ t"
      by (auto simp: dropWhile_append)
    from ex have dne: "dropWhile isWhiteSpace cs \<noteq> []" by (simp add: dropWhile_eq_Nil_conv)
    then have "last (dropWhile isWhiteSpace cs) = last cs"
      by (metis append_Nil2 last_appendR takeWhile_dropWhile_id)
    with l dne have
      "collapseWhiteSpace (dropWhile isWhiteSpace cs @ t) =
         collapseWhiteSpace (dropWhile isWhiteSpace cs) @ collapseWhiteSpace t"
      using "2.IH"(1)[OF True] by simp
    with True d show ?thesis by simp
  next
    case False
    show ?thesis
    proof (cases "cs = []")
      case True
      with False show ?thesis by simp
    next
      case ne: False
      with "2.prems" have "\<not> isWhiteSpace (last cs)" by simp
      with "2.IH"(2)[OF False] False show ?thesis by simp
    qed
  qed
qed

lemma collapseWhiteSpace_run:
  assumes r: "r \<noteq> []" "\<forall>c \<in> set r. isWhiteSpace c"
    and ys: "ys = [] \<or> \<not> isWhiteSpace (hd ys)"
  shows "collapseWhiteSpace (r @ ys) = SP # collapseWhiteSpace ys"
proof -
  from r obtain c r' where rr: "r = c # r'" by (cases r) auto
  with r have c: "isWhiteSpace c" and r': "\<forall>x \<in> set r'. isWhiteSpace x" by simp_all
  from ys have "dropWhile isWhiteSpace ys = ys" by (cases ys) auto
  with r' have "dropWhile isWhiteSpace (r' @ ys) = ys" by (simp add: dropWhile_append)
  with c rr show ?thesis by simp
qed

lemma collapseWhiteSpace_runs:
  assumes "xs = [] \<or> \<not> isWhiteSpace (last xs)"
    and "r \<noteq> []" "\<forall>c \<in> set r. isWhiteSpace c"
    and "ys = [] \<or> \<not> isWhiteSpace (hd ys)"
  shows "collapseWhiteSpace (xs @ r @ ys) = collapseWhiteSpace xs @ [SP] @ collapseWhiteSpace ys"
  using collapseWhiteSpace_append[OF assms(1), of "r @ ys"] collapseWhiteSpace_run[OF assms(2-4)]
  by simp

lemma removeFirst_prefix:
  "pat \<noteq> [] \<Longrightarrow> prefix pat h \<Longrightarrow> removeFirst pat h = drop (length pat) h"
  by (cases h) auto

lemma removeFirst_absent: "\<not> sublist pat h \<Longrightarrow> removeFirst pat h = h"
proof (induction h)
  case Nil
  show ?case by simp
next
  case (Cons c cs)
  from Cons.prems have np: "\<not> prefix pat (c # cs)" and ns: "\<not> sublist pat cs"
    by (simp_all add: sublist_Cons_right)
  from Cons.IH[OF ns] np show ?case by (simp only: removeFirst.simps if_False)
qed

lemma formatReference_spec:
  "formatReference P i r = Inr line \<Longrightarrow>
     line = spec_citationLine P i r \<and>
     (\<forall>u. url r = Some u \<and> prefix (lit ''http'') u \<longrightarrow> urlHostname P u \<noteq> None)"
  by (auto simp: formatReference_def spec_citationLine_def marker_def lit_def Let_def
           split: option.splits if_splits)

lemma formatReferences_lines:
  assumes "formatReferences P refs = Inr block"
  shows "\<exists>lines. block = join [LF, LF] lines \<and> length lines = length refs \<and>
           (\<forall>i < length refs.
              lines ! i = spec_citationLine P i (refs ! i) \<and>
              (\<forall>u. url (refs ! i) = Some u \<and> prefix (lit ''http'') u \<longrightarrow> urlHostname P u \<noteq> None))"
proof -
  from assms obtain lines where fl: "formatLines P 0 refs = Inr lines"
    and b: "block = join [LF, LF] lines"
    by (auto simp: formatReferences_def split: sum.splits)
  from formatLines_Inr[OF fl] have len: "length lines = length refs"
    and each: "\<forall>j < length refs. formatReference P (0 + j) (refs ! j) = Inr (lines ! j)"
    by simp_all
  have "\<forall>i < length refs.
          lines ! i = spec_citationLine P i (refs ! i) \<and>
          (\<forall>u. url (refs ! i) = Some u \<and> prefix (lit ''http'') u \<longrightarrow> urlHostname P u \<noteq> None)"
  proof (intro allI impI)
    fix i assume "i < length refs"
    with each have "formatReference P i (refs ! i) = Inr (lines ! i)" by simp
    then show "lines ! i = spec_citationLine P i (refs ! i) \<and>
          (\<forall>u. url (refs ! i) = Some u \<and> prefix (lit ''http'') u \<longrightarrow> urlHostname P u \<noteq> None)"
      by (rule formatReference_spec)
  qed
  with b len show ?thesis by blast
qed

text \<open>
  C6 (as amended). The reference block is the citation lines joined by blank lines, one
  line per reference in list order. The line of the reference at 0-based position \<open>i\<close> is
  \<open>[^{i+1}]: {cleanedQuote}\<close>, followed by \<open> [{label}]({url})\<close> when the \<open>url\<close> is present
  and begins with \<open>http\<close> (it then has parsed). \<open>cleanedQuote\<close> is the quote in which
  every code point that is not a letter, a number or white space has become one space,
  and in which every maximal run of white space has then become one space: text without
  white space is unchanged, and a run between two pieces of text leaves exactly one space
  between their collapsed forms. The label is the host name without its first four
  characters when it begins with \<open>www.\<close>, and the host name itself when \<open>www.\<close> does not
  occur in it.
\<close>

theorem C6_citation_lines:
  "(formatReferences P refs = Inr block \<longrightarrow>
      (\<exists>lines. block = join [LF, LF] lines \<and> length lines = length refs \<and>
         (\<forall>i < length refs.
            lines ! i = spec_citationLine P i (refs ! i) \<and>
            (\<forall>u. url (refs ! i) = Some u \<and> prefix (lit ''http'') u \<longrightarrow> urlHostname P u \<noteq> None)))) \<and>
   cleanQuote P q = collapseWhiteSpace (replaceNonWord P q) \<and>
   codePoints (replaceNonWord P q) =
     map (\<lambda>cp. if keepCodePoint P cp then cp else 0x20) (codePoints q) \<and>
   ((\<forall>c \<in> set s. \<not> isWhiteSpace c) \<longrightarrow> collapseWhiteSpace s = s) \<and>
   ((xs = [] \<or> \<not> isWhiteSpace (last xs)) \<and> ws \<noteq> [] \<and> (\<forall>c \<in> set ws. isWhiteSpace c) \<and>
    (ys = [] \<or> \<not> isWhiteSpace (hd ys)) \<longrightarrow>
      collapseWhiteSpace (xs @ ws @ ys) = collapseWhiteSpace xs @ [SP] @ collapseWhiteSpace ys) \<and>
   (prefix (lit ''www.'') hostname \<longrightarrow> removeFirst (lit ''www.'') hostname = drop 4 hostname) \<and>
   (\<not> sublist (lit ''www.'') hostname \<longrightarrow> removeFirst (lit ''www.'') hostname = hostname)"
proof (intro conjI impI)
  assume "formatReferences P refs = Inr block"
  then show "\<exists>lines. block = join [LF, LF] lines \<and> length lines = length refs \<and>
         (\<forall>i < length refs.
            lines ! i = spec_citationLine P i (refs ! i) \<and>
            (\<forall>u. url (refs ! i) = Some u \<and> prefix (lit ''http'') u \<longrightarrow> urlHostname P u \<noteq> None))"
    by (rule formatReferences_lines)
next
  show "cleanQuote P q = collapseWhiteSpace (replaceNonWord P q)" by (simp add: cleanQuote_def)
next
  show "codePoints (replaceNonWord P q) =
     map (\<lambda>cp. if keepCodePoint P cp then cp else 0x20) (codePoints q)"
    by (rule codePoints_replaceNonWord)
next
  assume "\<forall>c \<in> set s. \<not> isWhiteSpace c"
  then show "collapseWhiteSpace s = s" by (rule collapseWhiteSpace_no_ws)
next
  assume "(xs = [] \<or> \<not> isWhiteSpace (last xs)) \<and> ws \<noteq> [] \<and> (\<forall>c \<in> set ws. isWhiteSpace c) \<and>
    (ys = [] \<or> \<not> isWhiteSpace (hd ys))"
  then show "collapseWhiteSpace (xs @ ws @ ys) = collapseWhiteSpace xs @ [SP] @ collapseWhiteSpace ys"
    by (intro collapseWhiteSpace_runs) blast+
next
  assume "prefix (lit ''www.'') hostname"
  then have "removeFirst (lit ''www.'') hostname = drop (length (lit ''www.'')) hostname"
    by (intro removeFirst_prefix) (simp_all add: lit_def)
  moreover have "length (lit ''www.'') = 4" by (simp add: lit_def)
  ultimately show "removeFirst (lit ''www.'') hostname = drop 4 hostname" by (simp only:)
next
  assume "\<not> sublist (lit ''www.'') hostname"
  then show "removeFirst (lit ''www.'') hostname = hostname" by (rule removeFirst_absent)
qed

text \<open>
  The claim's own example fails: the two exclamation marks of \<open>"Hello, world!!"\<close> become a
  run of spaces that collapses to one space, so the cleaned quote is \<open>"Hello world "\<close>, with
  a trailing space, and the citation line keeps it.
\<close>

theorem C6_trailing_space:
  "formatReferences samplePlatform
     [\<lparr>exactQuote = lit ''Hello, world!!'', url = None\<rparr>, \<lparr>exactQuote = lit ''ok'', url = None\<rparr>]
     = Inr (lit ''[^1]: Hello world '' @ [LF, LF] @ lit ''[^2]: ok'') \<and>
   cleanQuote samplePlatform (lit ''Hello, world!!'') = lit ''Hello world '' \<and>
   cleanQuote samplePlatform (lit ''Hello, world!!'') \<noteq> lit ''Hello world''"
  by (simp add: ev)

theorem C6_citation_lines_witness:
  "formatReferences samplePlatform
     [\<lparr>exactQuote = lit ''Hello, world!!'', url = None\<rparr>,
      \<lparr>exactQuote = lit ''ok'', url = Some (lit ''https://www.example.com/a'')\<rparr>]
     = Inr (lit ''[^1]: Hello world '' @ [LF, LF] @
            lit ''[^2]: ok [example.com](https://www.example.com/a)'') \<and>
   (\<exists>lines. lit ''[^1]: Hello world '' @ [LF, LF] @
              lit ''[^2]: ok [example.com](https://www.example.com/a)'' = join [LF, LF] lines \<and>
            length lines = 2 \<and>
            lines ! 0 = lit ''[^1]: Hello world '' \<and>
            lines ! 1 = lit ''[^2]: ok [example.com](https://www.example.com/a)'') \<and>
   collapseWhiteSpace (lit ''a'' @ [SP, LF, SP] @ lit ''b'') = lit ''a b'' \<and>
   removeFirst (lit ''www.'') (lit ''www.example.com'') = lit ''example.com'' \<and>
   removeFirst (lit ''www.'') (lit ''example.com'') = lit ''example.com''"
proof -
  let ?refs = "[\<lparr>exactQuote = lit ''Hello, world!!'', url = None\<rparr>,
      \<lparr>exactQuote = lit ''ok'', url = Some (lit ''https://www.example.com/a'')\<rparr>]"
  let ?block = "lit ''[^1]: Hello world '' @ [LF, LF] @
            lit ''[^2]: ok [example.com](https://www.example.com/a)''"
  note C6 = C6_citation_lines[where P = samplePlatform and refs = ?refs and block = ?block
      and xs = "lit ''a''" and ws = "[SP, LF, SP]" and ys = "lit ''b''" and s = "lit ''a''"]
  have e: "formatReferences samplePlatform ?refs = Inr ?block"
    by (simp add: ev)
  with C6 obtain lines where l: "?block = join [LF, LF] lines" "length lines = length ?refs"
    "\<forall>i < length ?refs. lines ! i = spec_citationLine samplePlatform i (?refs ! i)"
    by blast
  have s0: "spec_citationLine samplePlatform 0 (?refs ! 0) = lit ''[^1]: Hello world ''"
    by (simp add: spec_citationLine_def ev)
  have s1: "spec_citationLine samplePlatform 1 (?refs ! 1)
              = lit ''[^2]: ok [example.com](https://www.example.com/a)''"
    by (simp add: spec_citationLine_def ev)
  from l s0 s1 have 1: "\<exists>lines. ?block = join [LF, LF] lines \<and> length lines = 2 \<and>
            lines ! 0 = lit ''[^1]: Hello world '' \<and>
            lines ! 1 = lit ''[^2]: ok [example.com](https://www.example.com/a)''"
    by (intro exI[of _ lines]) simp
  have c: "(lit ''a'' = [] \<or> \<not> isWhiteSpace (last (lit ''a''))) \<and> [SP, LF, SP] \<noteq> [] \<and>
           (\<forall>c \<in> set [SP, LF, SP]. isWhiteSpace c) \<and> (lit ''b'' = [] \<or> \<not> isWhiteSpace (hd (lit ''b'')))"
    by (simp add: lit_def isWhiteSpace_def)
  note unchanged = C6_citation_lines[THEN conjunct2, THEN conjunct2, THEN conjunct2,
                                     THEN conjunct1, rule_format]
  have ca: "collapseWhiteSpace (lit ''a'') = lit ''a''"
    by (rule unchanged) (simp add: lit_def isWhiteSpace_def)
  have cb: "collapseWhiteSpace (lit ''b'') = lit ''b''"
    by (rule unchanged) (simp add: lit_def isWhiteSpace_def)
  from C6 c have "collapseWhiteSpace (lit ''a'' @ [SP, LF, SP] @ lit ''b'')
      = collapseWhiteSpace (lit ''a'') @ [SP] @ collapseWhiteSpace (lit ''b'')" by blast
  then have 2: "collapseWhiteSpace (lit ''a'' @ [SP, LF, SP] @ lit ''b'') = lit ''a b''"
    unfolding ca cb by (simp add: lit_def)
  have "prefix (lit ''www.'') (lit ''www.example.com'')" by (simp add: lit_def)
  with C6_citation_lines[where hostname = "lit ''www.example.com''"]
  have 3: "removeFirst (lit ''www.'') (lit ''www.example.com'') = lit ''example.com''"
    by (simp add: lit_def)
  have "\<not> sublist (lit ''www.'') (lit ''example.com'')" by (simp add: lit_def sublist_code)
  with C6_citation_lines[where hostname = "lit ''example.com''"]
  have 4: "removeFirst (lit ''www.'') (lit ''example.com'') = lit ''example.com''"
    by blast
  from e 1 2 3 4 show ?thesis by blast
qed

subsection \<open>The branch without footnote markers\<close>

lemma appendedCitations_upt:
  "appendedCitations n = concat (map (\<lambda>i. marker (showNat i)) [1..<Suc n])"
proof -
  have "map (\<lambda>i. marker (showNat (i + 1))) [0..<n] = map (\<lambda>i. marker (showNat i)) (map Suc [0..<n])"
    by simp
  also have "map Suc [0..<n] = [1..<Suc n]" by (simp add: map_Suc_upt)
  finally show ?thesis by (simp add: appendedCitations_def)
qed

lemma not_ws_GLYPH: "\<not> isWhiteSpace GLYPH"
  by (simp add: isWhiteSpace_def)

lemma trimStart_line_start:
  "trimStart (s @ [LF, LF]) = [] \<or> suffix [LF, LF] (trimStart (s @ [LF, LF]))"
proof (cases "\<forall>c \<in> set s. isWhiteSpace c")
  case True
  then show ?thesis by (simp add: trimStart_def dropWhile_append ws_LF)
next
  case False
  then have "trimStart (s @ [LF, LF]) = dropWhile isWhiteSpace s @ [LF, LF]"
    by (auto simp: trimStart_def dropWhile_append)
  then show ?thesis by (simp add: suffix_def)
qed

text \<open>
  C5 (as amended). For a non-empty reference list whose URLs parse and an answer whose
  grouped-normalized text has no footnote marker, the result is: the normalized text
  (behind a line feed, leading white space trimmed) and a blank line, or nothing when the
  text is all white space; then the glyph line, \<open>GLYPH\<close> followed by the markers \<open>[^1]\<close> to
  \<open>[^len]\<close> with nothing between them; a blank line; and the formatted reference block
  without its trailing white space.
\<close>

theorem C5_no_markers_branch:
  "references a \<noteq> [] \<and> extractFootnotes (expandGrouped (answer a)) = [] \<and>
   formatReferences P (references a) = Inr block \<longrightarrow>
     buildMdFromAnswer P a =
       Inr (trimStart ([LF] @ expandGrouped (answer a) @ [LF, LF]) @ [GLYPH] @
            concat (map (\<lambda>i. lit ''[^'' @ showNat i @ lit '']'') [1..<Suc (length (references a))]) @
            [LF, LF] @ trimEnd block) \<and>
     (trimStart ([LF] @ expandGrouped (answer a) @ [LF, LF]) = [] \<or>
      suffix [LF, LF] (trimStart ([LF] @ expandGrouped (answer a) @ [LF, LF])))"
proof
  assume h: "references a \<noteq> [] \<and> extractFootnotes (expandGrouped (answer a)) = [] \<and>
   formatReferences P (references a) = Inr block"
  let ?p = "expandGrouped (answer a)"
  let ?n = "length (references a)"
  let ?cites = "concat (map (\<lambda>i. lit ''[^'' @ showNat i @ lit '']'') [1..<Suc ?n])"
  let ?pre = "trimStart ([LF] @ ?p @ [LF, LF])"
  from h have rt: "reconciledText a = ?p @ [LF, LF, GLYPH] @ appendedCitations ?n"
    by (simp add: reconciledText_def)
  have ac: "appendedCitations ?n = ?cites"
    by (simp add: appendedCitations_upt marker_def)
  have "trimStart (([LF] @ ?p @ [LF, LF]) @ GLYPH # (?cites @ [LF, LF]))
          = ?pre @ GLYPH # (?cites @ [LF, LF])"
    by (rule trimStart_append_keep) (rule not_ws_GLYPH)
  then have "trimStart ([LF] @ reconciledText a @ [LF, LF]) = ?pre @ [GLYPH] @ ?cites @ [LF, LF]"
    by (simp add: rt ac)
  with h buildMdFromAnswer_layout[of a P block]
  have 1: "buildMdFromAnswer P a = Inr (?pre @ [GLYPH] @ ?cites @ [LF, LF] @ trimEnd block)"
    by simp
  have 2: "?pre = [] \<or> suffix [LF, LF] ?pre"
    using trimStart_line_start[of "[LF] @ ?p"] by simp
  from 1 2 show "buildMdFromAnswer P a = Inr (?pre @ [GLYPH] @ ?cites @ [LF, LF] @ trimEnd block) \<and>
            (?pre = [] \<or> suffix [LF, LF] ?pre)"
    by blast
qed

text \<open>
  The claim as stated fails at the end of the block: the quote \<open>"Done."\<close> is cleaned to
  \<open>"Done "\<close>, the block is \<open>"[^1]: Done "\<close>, and the final \<open>trim\<close> takes its last space, so
  the result does not end with the glyph line followed by the full block.
\<close>

theorem C5_block_loses_trailing_space:
  "extractFootnotes (expandGrouped (lit ''x'')) = [] \<and>
   formatReferences samplePlatform [\<lparr>exactQuote = lit ''Done.'', url = None\<rparr>]
     = Inr (lit ''[^1]: Done '') \<and>
   buildMdFromAnswer samplePlatform
     \<lparr>answer = lit ''x'', references = [\<lparr>exactQuote = lit ''Done.'', url = None\<rparr>]\<rparr>
     = Inr (lit ''x'' @ [LF, LF, GLYPH] @ lit ''[^1]'' @ [LF, LF] @ lit ''[^1]: Done'') \<and>
   \<not> suffix ([GLYPH] @ lit ''[^1]'' @ [LF, LF] @ lit ''[^1]: Done '')
            (lit ''x'' @ [LF, LF, GLYPH] @ lit ''[^1]'' @ [LF, LF] @ lit ''[^1]: Done'')"
  by (simp add: ev suffix_to_prefix)

theorem C5_no_markers_branch_witness:
  "buildMdFromAnswer samplePlatform
     \<lparr>answer = lit ''x'',
      references = [\<lparr>exactQuote = lit ''Done.'', url = None\<rparr>, \<lparr>exactQuote = lit ''ok'', url = None\<rparr>]\<rparr>
     = Inr (lit ''x'' @ [LF, LF, GLYPH] @ lit ''[^1][^2]'' @ [LF, LF] @
            lit ''[^1]: Done '' @ [LF, LF] @ lit ''[^2]: ok'')"
proof -
  let ?refs = "[\<lparr>exactQuote = lit ''Done.'', url = None\<rparr>, \<lparr>exactQuote = lit ''ok'', url = None\<rparr>]"
  let ?a = "\<lparr>answer = lit ''x'', references = ?refs\<rparr>"
  let ?block = "lit ''[^1]: Done '' @ [LF, LF] @ lit ''[^2]: ok''"
  have h: "references ?a \<noteq> [] \<and> extractFootnotes (expandGrouped (answer ?a)) = [] \<and>
             formatReferences samplePlatform (references ?a) = Inr ?block"
    by (simp add: ev)
  have t: "trimStart ([LF] @ expandGrouped (answer ?a) @ [LF, LF]) = lit ''x'' @ [LF, LF]"
    by (simp add: ev)
  have c: "concat (map (\<lambda>i. lit ''[^'' @ showNat i @ lit '']'') [1..<Suc (length (references ?a))])
             = lit ''[^1][^2]''"
    by (simp add: ev)
  have e: "trimEnd ?block = ?block" by (simp add: ev)
  from C5_no_markers_branch[of ?a samplePlatform ?block] h
  have "buildMdFromAnswer samplePlatform ?a =
       Inr (trimStart ([LF] @ expandGrouped (answer ?a) @ [LF, LF]) @ [GLYPH] @
            concat (map (\<lambda>i. lit ''[^'' @ showNat i @ lit '']'') [1..<Suc (length (references ?a))]) @
            [LF, LF] @ trimEnd ?block)"
    by blast
  then show ?thesis unfolding t c e by simp
qed

subsection \<open>The branch without references\<close>

lemma matchFootnote_SomeD:
  "matchFootnote s = Some (ds, rest) \<Longrightarrow>
     s = marker ds @ rest \<and> ds \<noteq> [] \<and> (\<forall>c \<in> set ds. isDigit c)"
proof -
  assume a: "matchFootnote s = Some (ds, rest)"
  then obtain r where s: "s = 0x5B # 0x5E # r" and d: "dropWhile isDigit r = 0x5D # rest"
    and t: "takeWhile isDigit r = ds" and ne: "ds \<noteq> []"
    by (auto simp: matchFootnote_def split: list.splits if_splits)
  have "r = takeWhile isDigit r @ dropWhile isDigit r" by simp
  with d t have "r = ds @ 0x5D # rest" by simp
  with s have "s = marker ds @ rest" by (simp add: marker_Cons)
  moreover from t have "\<forall>c \<in> set ds. isDigit c" using set_takeWhileD by fastforce
  ultimately show ?thesis using ne by simp
qed

lemma matchFootnote_suffix: "matchFootnote s = Some (ds, rest) \<Longrightarrow> suffix rest s"
  by (drule matchFootnote_SomeD) (auto simp: suffix_def)

lemma matchFootnote_not_bracket: "c \<noteq> 0x5B \<Longrightarrow> matchFootnote (c # cs) = None"
  by (simp add: matchFootnote_def split: list.splits)

lemma everyBracketStartsMarker_iff:
  "everyBracketStartsMarker t \<longleftrightarrow>
     (\<forall>cs. suffix (0x5B # cs) t \<longrightarrow> matchFootnote (0x5B # cs) \<noteq> None)"
proof
  assume a: "everyBracketStartsMarker t"
  show "\<forall>cs. suffix (0x5B # cs) t \<longrightarrow> matchFootnote (0x5B # cs) \<noteq> None"
  proof (intro allI impI)
    fix cs :: jstring assume h: "suffix (0x5B # cs) t"
    then have "0x5B # cs \<in> set (suffixes t)" by (simp only: in_set_suffixes)
    with a have "case 0x5B # cs of [] \<Rightarrow> True
                 | x # _ \<Rightarrow> x = 0x5B \<longrightarrow> matchFootnote (0x5B # cs) \<noteq> None"
      unfolding everyBracketStartsMarker_def list_all_iff by (rule bspec)
    then show "matchFootnote (0x5B # cs) \<noteq> None" by simp
  qed
next
  assume a: "\<forall>cs. suffix (0x5B # cs) t \<longrightarrow> matchFootnote (0x5B # cs) \<noteq> None"
  show "everyBracketStartsMarker t"
    unfolding everyBracketStartsMarker_def list_all_iff
  proof
    fix u assume "u \<in> set (suffixes t)"
    then have su: "suffix u t" by (simp only: in_set_suffixes)
    show "case u of [] \<Rightarrow> True | c # _ \<Rightarrow> c = 0x5B \<longrightarrow> matchFootnote u \<noteq> None"
    proof (cases u)
      case Nil
      then show ?thesis by simp
    next
      case (Cons c cs)
      with a su show ?thesis by auto
    qed
  qed
qed

lemma everyBracketStartsMarker_suffix:
  assumes "everyBracketStartsMarker t" "suffix u t"
  shows "everyBracketStartsMarker u"
  unfolding everyBracketStartsMarker_iff
proof (intro allI impI)
  fix cs :: jstring assume h: "suffix (0x5B # cs) u"
  from h assms(2) have "suffix (0x5B # cs) t" by (rule suffix_order.trans)
  with assms(1) show "matchFootnote (0x5B # cs) \<noteq> None"
    unfolding everyBracketStartsMarker_iff by blast
qed

lemma everyBracketStartsMarker_head:
  assumes "everyBracketStartsMarker (c # cs)" "matchFootnote (c # cs) = None"
  shows "c \<noteq> 0x5B"
proof
  assume c: "c = 0x5B"
  have "suffix (0x5B # cs) (0x5B # cs)" by simp
  with assms(1) c have "matchFootnote (0x5B # cs) \<noteq> None"
    unfolding everyBracketStartsMarker_iff by blast
  with assms(2) c show False by simp
qed

lemma stripFootnotes_no_bracket:
  "everyBracketStartsMarker t \<Longrightarrow> 0x5B \<notin> set (stripFootnotes t)"
proof (induction t rule: stripFootnotes.induct)
  case 1
  show ?case by simp
next
  case (2 c cs)
  show ?case
  proof (cases "matchFootnote (c # cs)")
    case None
    from everyBracketStartsMarker_head[OF "2.prems" None] have c: "c \<noteq> 0x5B" .
    have "everyBracketStartsMarker cs"
      by (rule everyBracketStartsMarker_suffix[OF "2.prems"]) (simp add: suffix_Cons)
    with "2.IH"(1)[OF None] c None show ?thesis by simp
  next
    case (Some p)
    obtain ds rest where p: "p = (ds, rest)" by (cases p)
    with Some have m: "matchFootnote (c # cs) = Some (ds, rest)" by simp
    have "everyBracketStartsMarker rest"
      by (rule everyBracketStartsMarker_suffix[OF "2.prems"]) (rule matchFootnote_suffix[OF m])
    with "2.IH"(2)[OF m refl] m show ?thesis by simp
  qed
qed

lemma extractFootnotes_no_bracket: "0x5B \<notin> set s \<Longrightarrow> extractFootnotes s = []"
  by (induction s) (simp_all add: matchFootnote_not_bracket)

lemma stripFootnotes_no_bracket_id: "0x5B \<notin> set s \<Longrightarrow> stripFootnotes s = s"
  by (induction s) (simp_all add: matchFootnote_not_bracket)

lemma digits_takeWhile:
  "\<forall>c \<in> set ds. isDigit c \<Longrightarrow> \<not> isDigit x \<Longrightarrow>
     takeWhile isDigit (ds @ x # t) = ds \<and> dropWhile isDigit (ds @ x # t) = x # t"
  by (simp add: takeWhile_append dropWhile_append)

lemma not_digit_close: "\<not> isDigit 0x5D"
  by (simp add: isDigit_def)

lemma matchFootnote_marker:
  "ds \<noteq> [] \<Longrightarrow> \<forall>c \<in> set ds. isDigit c \<Longrightarrow> matchFootnote (marker ds @ t) = Some (ds, t)"
  using digits_takeWhile[of ds "0x5D" t] not_digit_close
  by (simp add: matchFootnote_def marker_Cons)

lemma stripFootnotes_skip:
  "0x5B \<notin> set pre \<Longrightarrow> stripFootnotes (pre @ t) = pre @ stripFootnotes t"
  by (induction pre) (simp_all add: matchFootnote_not_bracket)

lemma stripFootnotes_marker:
  assumes "0x5B \<notin> set pre" "ds \<noteq> []" "\<forall>c \<in> set ds. isDigit c"
  shows "stripFootnotes (pre @ marker ds @ t) = pre @ stripFootnotes t"
proof -
  have "stripFootnotes (marker ds @ t) = stripFootnotes t"
    using matchFootnote_marker[OF assms(2,3), of t] by (simp add: marker_Cons)
  with stripFootnotes_skip[OF assms(1)] show ?thesis by simp
qed

subsection \<open>Decimal numbers\<close>

lemma digit_cases: "d < 10 \<Longrightarrow> d \<in> {0, 1, 2, 3, 4, 5, 6, 7, 8, 9 :: nat}"
  by auto

lemma isDigit_digitChar: "d < 10 \<Longrightarrow> isDigit (digitChar d)"
  by (drule digit_cases) (auto simp: digitChar_def isDigit_def)

lemma digitValue_digitChar: "d < 10 \<Longrightarrow> digitValue (digitChar d) = d"
  by (drule digit_cases) (auto simp: digitChar_def digitValue_def)

lemma showNat_digits: "showNat n \<noteq> [] \<and> (\<forall>c \<in> set (showNat n). isDigit c)"
proof (induction n rule: showNat.induct)
  case (1 n)
  show ?case
  proof (cases "n < 10")
    case True
    then show ?thesis by (subst (1 2) showNat.simps) (simp add: isDigit_digitChar)
  next
    case False
    with 1 show ?thesis by (subst (1 2) showNat.simps) (simp add: isDigit_digitChar)
  qed
qed

lemma parseInt_snoc: "parseInt (s @ [c]) = 10 * parseInt s + digitValue c"
  by (simp add: parseInt_def)

lemma parseInt_showNat: "parseInt (showNat n) = n"
proof (induction n rule: showNat.induct)
  case (1 n)
  show ?case
  proof (cases "n < 10")
    case True
    then show ?thesis by (subst showNat.simps) (simp add: parseInt_def digitValue_digitChar)
  next
    case False
    with 1 have "parseInt (showNat (n div 10)) = n div 10" by simp
    with False show ?thesis
      by (subst showNat.simps) (simp add: parseInt_snoc digitValue_digitChar)
  qed
qed

subsection \<open>Scanning concatenated text\<close>

lemma extractFootnotes_marker:
  "ds \<noteq> [] \<Longrightarrow> \<forall>c \<in> set ds. isDigit c \<Longrightarrow>
     extractFootnotes (marker ds @ t) = ds # extractFootnotes t"
  using matchFootnote_marker[of ds t] by (simp add: marker_Cons)

lemma extractFootnotes_skip:
  "0x5B \<notin> set pre \<Longrightarrow> extractFootnotes (pre @ t) = extractFootnotes t"
  by (induction pre) (simp_all add: matchFootnote_not_bracket)

lemma matchFootnote_append_Some:
  "matchFootnote s = Some (ds, rest) \<Longrightarrow> matchFootnote (s @ t) = Some (ds, rest @ t)"
proof -
  assume "matchFootnote s = Some (ds, rest)"
  from matchFootnote_SomeD[OF this]
  have s: "s = marker ds @ rest" and d: "ds \<noteq> []" "\<forall>c \<in> set ds. isDigit c" by simp_all
  from matchFootnote_marker[OF d, of "rest @ t"] s show ?thesis by simp
qed

text \<open>
  A character that cannot continue a marker begun earlier: not \<open>^\<close>, not a digit, not \<open>]\<close>.
\<close>

lemma matchFootnote_append_None:
  assumes n: "matchFootnote s = None" and ne: "s \<noteq> []"
    and safe: "t = [] \<or> (hd t \<noteq> 0x5E \<and> hd t \<noteq> 0x5D \<and> \<not> isDigit (hd t))"
  shows "matchFootnote (s @ t) = None"
proof (rule ccontr)
  assume "matchFootnote (s @ t) \<noteq> None"
  then obtain ds rest where m: "matchFootnote (s @ t) = Some (ds, rest)" by auto
  from matchFootnote_SomeD[OF m]
  have e: "s @ t = marker ds @ rest" and d: "ds \<noteq> []" "\<forall>c \<in> set ds. isDigit c" by simp_all
  from e obtain us where "(s = marker ds @ us \<and> us @ t = rest) \<or> (s @ us = marker ds \<and> t = us @ rest)"
    by (auto simp: append_eq_append_conv2)
  then show False
  proof
    assume "s = marker ds @ us \<and> us @ t = rest"
    with matchFootnote_marker[OF d, of us] n show False by simp
  next
    assume h: "s @ us = marker ds \<and> t = us @ rest"
    show False
    proof (cases "us = []")
      case True
      with h have "s = marker ds @ []" by simp
      with matchFootnote_marker[OF d, of "[]"] n show False by simp
    next
      case False
      with h have t: "t \<noteq> []" and ht: "hd t = hd us" by auto
      from ne obtain c s' where s: "s = c # s'" by (cases s) auto
      with h have "s' @ us = 0x5E # ds @ [0x5D]" by (simp add: marker_Cons)
      then have "set us \<subseteq> set (0x5E # ds @ [0x5D])"
        by (metis set_append sup_ge2)
      with False have "hd us \<in> set (0x5E # ds @ [0x5D])" using hd_in_set by blast
      with d(2) have "hd us = 0x5E \<or> isDigit (hd us) \<or> hd us = 0x5D" by auto
      with safe t ht show False by auto
    qed
  qed
qed

lemma extractFootnotes_append:
  assumes "t = [] \<or> (hd t \<noteq> 0x5E \<and> hd t \<noteq> 0x5D \<and> \<not> isDigit (hd t))"
  shows "extractFootnotes (s @ t) = extractFootnotes s @ extractFootnotes t"
proof (induction s rule: extractFootnotes.induct)
  case 1
  show ?case by simp
next
  case (2 c cs)
  show ?case
  proof (cases "matchFootnote (c # cs)")
    case None
    from matchFootnote_append_None[OF None _ assms] have "matchFootnote ((c # cs) @ t) = None"
      by simp
    with None "2.IH"(1)[OF None] show ?thesis by simp
  next
    case (Some p)
    obtain ds rest where p: "p = (ds, rest)" by (cases p)
    with Some have m: "matchFootnote (c # cs) = Some (ds, rest)" by simp
    from matchFootnote_append_Some[OF m, of t] have "matchFootnote ((c # cs) @ t) = Some (ds, rest @ t)" .
    with m "2.IH"(2)[OF m refl] show ?thesis by simp
  qed
qed

lemma extractFootnotes_markers_if:
  "extractFootnotes (concat (map (\<lambda>i. if Q i then marker (showNat i) else []) is))
     = map showNat (filter Q is)"
proof (induction "is")
  case Nil
  show ?case by simp
next
  case (Cons i "is")
  then show ?case using showNat_digits[of i] by (simp add: extractFootnotes_marker)
qed

lemma extractFootnotes_markers:
  "extractFootnotes (concat (map (\<lambda>i. marker (showNat i)) is)) = map showNat is"
proof (induction "is")
  case Nil
  show ?case by simp
next
  case (Cons i "is")
  then show ?case using showNat_digits[of i] by (simp add: extractFootnotes_marker)
qed

lemma extractFootnotes_appendedCitations:
  "extractFootnotes (appendedCitations n) = map showNat [1..<Suc n]"
  unfolding appendedCitations_upt by (rule extractFootnotes_markers)

lemma unusedReferences_upt:
  "unusedReferences footnotes n =
     concat (map (\<lambda>i. if i \<notin> set (map parseInt footnotes) then marker (showNat i) else [])
                 [1..<Suc n])"
proof -
  let ?g = "\<lambda>i. if i \<notin> set (map parseInt footnotes) then marker (showNat i) else []"
  have "map (\<lambda>i. ?g (i + 1)) [0..<n] = map ?g (map Suc [0..<n])" by simp
  also have "map Suc [0..<n] = [1..<Suc n]" by (simp add: map_Suc_upt)
  finally show ?thesis by (simp add: unusedReferences_def Let_def)
qed

lemma extractFootnotes_unusedReferences:
  "extractFootnotes (unusedReferences footnotes n)
     = map showNat (filter (\<lambda>i. i \<notin> set (map parseInt footnotes)) [1..<Suc n])"
  unfolding unusedReferences_upt by (rule extractFootnotes_markers_if)

subsection \<open>Renumbering\<close>

lemma renumberFootnotes_hd: "\<exists>r. renumberFootnotes k (c # cs) = c # r"
proof (cases "matchFootnote (c # cs)")
  case None
  then show ?thesis by simp
next
  case (Some p)
  obtain ds rest where p: "p = (ds, rest)" by (cases p)
  with Some have m: "matchFootnote (c # cs) = Some (ds, rest)" by simp
  from matchFootnote_SomeD[OF m] have "c = 0x5B" by (simp add: marker_Cons)
  with m show ?thesis by (simp add: marker_Cons)
qed

lemma renumberFootnotes_digits:
  "takeWhile isDigit (renumberFootnotes k s) = takeWhile isDigit s \<and>
   dropWhile isDigit (renumberFootnotes k s) = renumberFootnotes k (dropWhile isDigit s)"
proof (induction s)
  case Nil
  show ?case by simp
next
  case (Cons c cs)
  show ?case
  proof (cases "isDigit c")
    case True
    then have "c \<noteq> 0x5B" by (auto simp: isDigit_def)
    then have "matchFootnote (c # cs) = None" by (rule matchFootnote_not_bracket)
    with True Cons.IH show ?thesis by simp
  next
    case False
    obtain r where "renumberFootnotes k (c # cs) = c # r" using renumberFootnotes_hd by blast
    with False show ?thesis by simp
  qed
qed

lemma matchFootnote_shape:
  "matchFootnote (0x5B # 0x5E # r) =
     (case dropWhile isDigit r of
        [] \<Rightarrow> None
      | x # rest \<Rightarrow>
          if takeWhile isDigit r \<noteq> [] \<and> x = 0x5D then Some (takeWhile isDigit r, rest) else None)"
  by (simp add: matchFootnote_def)

lemma matchFootnote_renumber_None:
  assumes "matchFootnote (c # cs) = None"
  shows "matchFootnote (c # renumberFootnotes k cs) = None"
proof (cases "c = 0x5B")
  case False
  then show ?thesis by (rule matchFootnote_not_bracket)
next
  case c: True
  show ?thesis
  proof (cases cs)
    case Nil
    then show ?thesis by (simp add: matchFootnote_def)
  next
    case (Cons b r)
    show ?thesis
    proof (cases "b = 0x5E")
      case False
      obtain r' where "renumberFootnotes k (b # r) = b # r'" using renumberFootnotes_hd by blast
      with False Cons show ?thesis by (simp add: matchFootnote_def)
    next
      case b: True
      have "matchFootnote (b # r) = None" using b by (intro matchFootnote_not_bracket) simp
      then have rn: "renumberFootnotes k (b # r) = b # renumberFootnotes k r" by simp
      from c b Cons rn have shape: "c # renumberFootnotes k cs = 0x5B # 0x5E # renumberFootnotes k r"
        by simp
      from assms c b Cons have orig: "matchFootnote (0x5B # 0x5E # r) = None" by simp
      note dg = renumberFootnotes_digits[of k r]
      show ?thesis
      proof (cases "dropWhile isDigit r")
        case Nil
        with dg have "dropWhile isDigit (renumberFootnotes k r) = []" by simp
        then show ?thesis unfolding shape matchFootnote_shape by (simp only: list.case)
      next
        case (Cons x xs)
        obtain xs' where x: "renumberFootnotes k (x # xs) = x # xs'"
          using renumberFootnotes_hd by blast
        with dg Cons have d': "dropWhile isDigit (renumberFootnotes k r) = x # xs'" by simp
        from dg have tw: "takeWhile isDigit (renumberFootnotes k r) = takeWhile isDigit r" by simp
        from orig Cons have nm: "\<not> (takeWhile isDigit r \<noteq> [] \<and> x = 0x5D)"
          by (auto simp: matchFootnote_shape split: if_splits)
        show ?thesis unfolding shape matchFootnote_shape d' tw using nm by simp
      qed
    qed
  qed
qed

lemma extractFootnotes_renumber:
  "extractFootnotes (renumberFootnotes k s)
     = map showNat [Suc k..<Suc k + length (extractFootnotes s)]"
proof (induction k s rule: renumberFootnotes.induct)
  case (1 k)
  show ?case by simp
next
  case (2 k c cs)
  show ?case
  proof (cases "matchFootnote (c # cs)")
    case None
    from matchFootnote_renumber_None[OF None, of k]
    have "extractFootnotes (c # renumberFootnotes k cs) = extractFootnotes (renumberFootnotes k cs)"
      by simp
    with None "2.IH"(1)[OF None] show ?thesis by simp
  next
    case (Some p)
    obtain ds rest where p: "p = (ds, rest)" by (cases p)
    with Some have m: "matchFootnote (c # cs) = Some (ds, rest)" by simp
    let ?n = "length (extractFootnotes rest)"
    have ih: "extractFootnotes (renumberFootnotes (k + 1) rest) = map showNat [Suc (k + 1)..<Suc (k + 1) + ?n]"
      by (rule "2.IH"(2)[OF m refl])
    have "extractFootnotes (marker (showNat (k + 1)) @ renumberFootnotes (k + 1) rest)
            = showNat (k + 1) # extractFootnotes (renumberFootnotes (k + 1) rest)"
      using showNat_digits[of "k + 1"] by (intro extractFootnotes_marker) simp_all
    with ih have l: "extractFootnotes (renumberFootnotes k (c # cs))
            = showNat (Suc k) # map showNat [Suc (Suc k)..<Suc (Suc k) + ?n]"
      using m by simp
    have "[Suc k..<Suc k + Suc ?n] = Suc k # [Suc (Suc k)..<Suc (Suc k) + ?n]"
      by (subst upt_rec) simp
    with l m show ?thesis by simp
  qed
qed

lemma stripFootnotes_renumber:
  "stripFootnotes (renumberFootnotes k s) = stripFootnotes s"
proof (induction k s rule: renumberFootnotes.induct)
  case (1 k)
  show ?case by simp
next
  case (2 k c cs)
  show ?case
  proof (cases "matchFootnote (c # cs)")
    case None
    from matchFootnote_renumber_None[OF None, of k]
    have "stripFootnotes (c # renumberFootnotes k cs) = c # stripFootnotes (renumberFootnotes k cs)"
      by simp
    with None "2.IH"(1)[OF None] show ?thesis by simp
  next
    case (Some p)
    obtain ds rest where p: "p = (ds, rest)" by (cases p)
    with Some have m: "matchFootnote (c # cs) = Some (ds, rest)" by simp
    have "stripFootnotes (marker (showNat (k + 1)) @ renumberFootnotes (k + 1) rest)
            = stripFootnotes (renumberFootnotes (k + 1) rest)"
      using showNat_digits[of "k + 1"] stripFootnotes_marker[of "[]" "showNat (k + 1)"] by simp
    with "2.IH"(2)[OF m refl] m show ?thesis by simp
  qed
qed

subsection \<open>The markers of the result\<close>

lemma extractFootnotes_trimStart: "extractFootnotes (trimStart s) = extractFootnotes s"
proof -
  have "0x5B \<notin> set (takeWhile isWhiteSpace s)"
    using set_takeWhileD[of "0x5B" isWhiteSpace s] not_ws_bracket by blast
  then have "extractFootnotes (takeWhile isWhiteSpace s @ dropWhile isWhiteSpace s)
               = extractFootnotes (dropWhile isWhiteSpace s)"
    by (rule extractFootnotes_skip)
  then show ?thesis by (simp add: trimStart_def)
qed

lemma LF_safe: "hd [LF, LF] \<noteq> 0x5E \<and> hd [LF, LF] \<noteq> 0x5D \<and> \<not> isDigit (hd [LF, LF])"
  by (simp add: isDigit_def)

lemma extractFootnotes_framed:
  "extractFootnotes ([LF] @ s @ [LF, LF]) = extractFootnotes s"
proof -
  have "extractFootnotes (s @ [LF, LF]) = extractFootnotes s @ extractFootnotes [LF, LF]"
    using LF_safe by (intro extractFootnotes_append) blast
  moreover have "extractFootnotes [LF, LF] = []" by (simp add: matchFootnote_not_bracket)
  moreover have "extractFootnotes ([LF] @ (s @ [LF, LF])) = extractFootnotes (s @ [LF, LF])"
    by (rule extractFootnotes_skip) simp
  ultimately show ?thesis by simp
qed

lemma bracket_safe: "(0x5B :: jschar) \<noteq> 0x5E \<and> (0x5B :: jschar) \<noteq> 0x5D \<and> \<not> isDigit 0x5B"
  by (simp add: isDigit_def)

lemma extractFootnotes_result:
  assumes ne: "references a \<noteq> []"
    and fr: "formatReferences P (references a) = Inr block"
  shows "buildMdFromAnswer P a = Inr out \<Longrightarrow>
           extractFootnotes out
             = extractFootnotes (reconciledText a) @ extractFootnotes (trimEnd block)"
proof -
  assume "buildMdFromAnswer P a = Inr out"
  with buildMdFromAnswer_layout[OF ne fr]
  have o: "out = trimStart ([LF] @ reconciledText a @ [LF, LF]) @ trimEnd block" by simp
  from trimEnd_block_nonempty[OF ne fr] bracket_safe
  have "trimEnd block = [] \<or>
          (hd (trimEnd block) \<noteq> 0x5E \<and> hd (trimEnd block) \<noteq> 0x5D \<and> \<not> isDigit (hd (trimEnd block)))"
    by simp
  then have "extractFootnotes (trimStart ([LF] @ reconciledText a @ [LF, LF]) @ trimEnd block)
          = extractFootnotes (trimStart ([LF] @ reconciledText a @ [LF, LF]))
            @ extractFootnotes (trimEnd block)"
    by (rule extractFootnotes_append)
  with o show ?thesis by (simp only: extractFootnotes_trimStart extractFootnotes_framed)
qed

text \<open>The markers of the text part, branch by branch.\<close>

lemma extractFootnotes_glyph_line:
  "extractFootnotes (p @ ws @ [LF, LF, GLYPH] @ m)
     = extractFootnotes p @ extractFootnotes m" if "ws = [] \<or> ws = [SP]"
proof -
  have safe: "ws @ [LF, LF, GLYPH] @ m = [] \<or>
          (hd (ws @ [LF, LF, GLYPH] @ m) \<noteq> 0x5E \<and> hd (ws @ [LF, LF, GLYPH] @ m) \<noteq> 0x5D \<and>
           \<not> isDigit (hd (ws @ [LF, LF, GLYPH] @ m)))"
    using that by (auto simp: isDigit_def)
  have "0x5B \<notin> set (ws @ [LF, LF, GLYPH])" using that by auto
  then have "extractFootnotes ((ws @ [LF, LF, GLYPH]) @ m) = extractFootnotes m"
    by (rule extractFootnotes_skip)
  with extractFootnotes_append[OF safe, of p] show ?thesis by simp
qed

lemma reconciledText_markers:
  "extractFootnotes (reconciledText a) =
     (let footnotes = extractFootnotes (expandGrouped (answer a)); n = length (references a)
      in if footnotes = [] then map showNat [1..<Suc n]
         else if n > length footnotes \<and> \<not> needsCorrection footnotes n
           then footnotes @ map showNat (filter (\<lambda>i. i \<notin> set (map parseInt footnotes)) [1..<Suc n])
         else if \<not> needsCorrection footnotes n then footnotes
         else map showNat [1..<Suc (length footnotes)])"
proof -
  let ?p = "expandGrouped (answer a)"
  let ?f = "extractFootnotes ?p"
  let ?n = "length (references a)"
  have 1: "extractFootnotes (?p @ [LF, LF, GLYPH] @ appendedCitations ?n)
             = ?f @ map showNat [1..<Suc ?n]"
    using extractFootnotes_glyph_line[of "[]" ?p "appendedCitations ?n"]
    by (simp only: extractFootnotes_appendedCitations append_Nil simp_thms)
  have 2: "extractFootnotes (?p @ [SP, LF, LF, GLYPH] @ unusedReferences ?f ?n)
             = ?f @ map showNat (filter (\<lambda>i. i \<notin> set (map parseInt ?f)) [1..<Suc ?n])"
    using extractFootnotes_glyph_line[of "[SP]" ?p "unusedReferences ?f ?n"]
    by (simp only: extractFootnotes_unusedReferences append_Cons append_Nil simp_thms)
  have 3: "extractFootnotes (renumberFootnotes 0 ?p) = map showNat [1..<Suc (length ?f)]"
    using extractFootnotes_renumber[of 0 ?p] by simp
  show ?thesis
    unfolding reconciledText_def Let_def
    by (simp only: 1 2 3 split: if_split) simp
qed

lemma validIndex_showNat: "validIndex n (showNat i) \<longleftrightarrow> 1 \<le> i \<and> i \<le> n"
  by (simp add: validIndex_def parseInt_showNat)

lemma validIndex_upt: "list_all (validIndex n) (map showNat (filter Q [1..<Suc n]))"
  by (auto simp: list_all_iff validIndex_showNat)

lemma needsCorrection_valid:
  assumes "footnotes \<noteq> []" "list_all (validIndex n) footnotes" "needsCorrection footnotes n"
  shows "length footnotes = n"
proof -
  from assms(1) have "hd footnotes \<in> set footnotes" by simp
  with assms(2) have "\<not> parseInt (hd footnotes) > n"
    by (auto simp: list_all_iff validIndex_def)
  moreover from assms(1,2) have "\<not> list_all (\<lambda>x. parseInt x > n) footnotes"
    by (cases footnotes) (auto simp: validIndex_def)
  ultimately show ?thesis using assms(3) by (auto simp: needsCorrection_def)
qed

lemma reconciledText_valid:
  assumes "list_all (validIndex (length (references a))) (extractFootnotes (expandGrouped (answer a)))"
  shows "list_all (validIndex (length (references a))) (extractFootnotes (reconciledText a))"
proof -
  let ?f = "extractFootnotes (expandGrouped (answer a))"
  let ?n = "length (references a)"
  have all: "list_all (validIndex ?n) (map showNat [1..<Suc ?n])"
    using validIndex_upt[of ?n "\<lambda>i. True"] by simp
  show ?thesis
  proof (cases "?f = []")
    case True
    with all show ?thesis by (simp add: reconciledText_markers Let_def del: upt_Suc)
  next
    case ne: False
    show ?thesis
    proof (cases "needsCorrection ?f ?n")
      case True
      from needsCorrection_valid[OF ne assms True] have "length ?f = ?n" .
      with True ne all show ?thesis by (simp add: reconciledText_markers Let_def del: upt_Suc)
    next
      case False
      with ne assms validIndex_upt[of ?n "\<lambda>i. i \<notin> set (map parseInt ?f)"]
      show ?thesis by (simp add: reconciledText_markers Let_def del: upt_Suc)
    qed
  qed
qed

subsection \<open>The correction branch\<close>

lemma reconciledText_correction:
  assumes "extractFootnotes (expandGrouped (answer a)) \<noteq> []"
    and "needsCorrection (extractFootnotes (expandGrouped (answer a))) (length (references a))"
  shows "reconciledText a = renumberFootnotes 0 (expandGrouped (answer a))"
  using assms by (simp add: reconciledText_def Let_def)

text \<open>
  C2 (as amended). For the answer \<open>"[^2] [^2] [^2]"\<close> and a list of three references whose
  URLs parse, the markers found are \<open>2, 2, 2\<close>, \<open>needsCorrection\<close> holds, and the result is
  \<open>"[^1] [^2] [^3]"\<close>, a blank line and the reference block without its trailing white
  space. Whenever \<open>needsCorrection\<close> holds (for a non-empty list and a text with markers) and
  a result is returned, the result is the renumbered text and the block; the markers of
  the renumbered text are \<open>1, 2, ..., k\<close> in this order, \<open>k\<close> being the number of markers
  found, whatever their numbers were; they are the first \<open>k\<close> markers of the result; and
  outside the markers the text is unchanged.
\<close>

theorem C2_sequential_renumbering:
  "(length refs = 3 \<and> formatReferences P refs = Inr block \<longrightarrow>
      extractFootnotes (expandGrouped (lit ''[^2] [^2] [^2]'')) = [lit ''2'', lit ''2'', lit ''2''] \<and>
      needsCorrection [lit ''2'', lit ''2'', lit ''2''] (length refs) \<and>
      buildMdFromAnswer P \<lparr>answer = lit ''[^2] [^2] [^2]'', references = refs\<rparr>
        = Inr (lit ''[^1] [^2] [^3]'' @ [LF, LF] @ trimEnd block)) \<and>
   (references a \<noteq> [] \<and> extractFootnotes (expandGrouped (answer a)) \<noteq> [] \<and>
    needsCorrection (extractFootnotes (expandGrouped (answer a))) (length (references a)) \<and>
    buildMdFromAnswer P a = Inr out \<longrightarrow>
      (\<exists>refBlock. formatReferences P (references a) = Inr refBlock \<and>
         out = trimStart ([LF] @ renumberFootnotes 0 (expandGrouped (answer a)) @ [LF, LF])
               @ trimEnd refBlock) \<and>
      extractFootnotes (renumberFootnotes 0 (expandGrouped (answer a)))
        = map showNat [1..<Suc (length (extractFootnotes (expandGrouped (answer a))))] \<and>
      take (length (extractFootnotes (expandGrouped (answer a)))) (extractFootnotes out)
        = map showNat [1..<Suc (length (extractFootnotes (expandGrouped (answer a))))] \<and>
      stripFootnotes (renumberFootnotes 0 (expandGrouped (answer a)))
        = stripFootnotes (expandGrouped (answer a)))"
proof (intro conjI impI)
  assume h: "length refs = 3 \<and> formatReferences P refs = Inr block"
  let ?a = "\<lparr>answer = lit ''[^2] [^2] [^2]'', references = refs\<rparr>"
  show x: "extractFootnotes (expandGrouped (lit ''[^2] [^2] [^2]'')) = [lit ''2'', lit ''2'', lit ''2'']"
    by (simp add: ev)
  from h show n: "needsCorrection [lit ''2'', lit ''2'', lit ''2''] (length refs)"
    by (simp add: needsCorrection_def)
  have p: "expandGrouped (lit ''[^2] [^2] [^2]'') = lit ''[^2] [^2] [^2]''"
    by (simp add: ev)
  from x n have "reconciledText ?a = renumberFootnotes 0 (expandGrouped (lit ''[^2] [^2] [^2]''))"
    using reconciledText_correction[of ?a] by simp
  also have "\<dots> = lit ''[^1] [^2] [^3]''"
    unfolding p by (simp add: ev)
  finally have rt: "reconciledText ?a = lit ''[^1] [^2] [^3]''" .
  have ts: "trimStart ([LF] @ lit ''[^1] [^2] [^3]'' @ [LF, LF]) = lit ''[^1] [^2] [^3]'' @ [LF, LF]"
    by (simp add: ev)
  from h have "references ?a \<noteq> []" "formatReferences P (references ?a) = Inr block" by auto
  from buildMdFromAnswer_layout[OF this] rt ts
  show "buildMdFromAnswer P ?a = Inr (lit ''[^1] [^2] [^3]'' @ [LF, LF] @ trimEnd block)"
    by simp
next
  assume h: "references a \<noteq> [] \<and> extractFootnotes (expandGrouped (answer a)) \<noteq> [] \<and>
    needsCorrection (extractFootnotes (expandGrouped (answer a))) (length (references a)) \<and>
    buildMdFromAnswer P a = Inr out"
  let ?p = "expandGrouped (answer a)"
  let ?k = "length (extractFootnotes ?p)"
  from h have ne: "references a \<noteq> []" and b: "buildMdFromAnswer P a = Inr out" by simp_all
  from h have rt: "reconciledText a = renumberFootnotes 0 ?p"
    by (intro reconciledText_correction) simp_all
  from ne b obtain refBlock where fr: "formatReferences P (references a) = Inr refBlock"
    using buildMdFromAnswer_template[of a P] by (auto split: sum.splits)
  from b buildMdFromAnswer_layout[OF ne fr] rt
  have o: "out = trimStart ([LF] @ renumberFootnotes 0 ?p @ [LF, LF]) @ trimEnd refBlock" by simp
  from fr o show "\<exists>refBlock. formatReferences P (references a) = Inr refBlock \<and>
         out = trimStart ([LF] @ renumberFootnotes 0 ?p @ [LF, LF]) @ trimEnd refBlock"
    by blast
  show r: "extractFootnotes (renumberFootnotes 0 ?p) = map showNat [1..<Suc ?k]"
    using extractFootnotes_renumber[of 0 ?p] by (simp del: upt_Suc)
  from extractFootnotes_result[OF ne fr b] rt r
  have "extractFootnotes out = map showNat [1..<Suc ?k] @ extractFootnotes (trimEnd refBlock)"
    by (simp del: upt_Suc)
  moreover have "length (map showNat [1..<Suc ?k]) = ?k" by (simp del: upt_Suc)
  ultimately show "take ?k (extractFootnotes out) = map showNat [1..<Suc ?k]"
    by (simp del: upt_Suc)
  show "stripFootnotes (renumberFootnotes 0 ?p) = stripFootnotes ?p"
    by (rule stripFootnotes_renumber)
qed

text \<open>
  The claim as stated fails at the end of the block: the quotes \<open>"a."\<close>, \<open>"b."\<close>, \<open>"c."\<close> are
  cleaned to \<open>"a "\<close>, \<open>"b "\<close>, \<open>"c "\<close>, and the final \<open>trim\<close> takes the last space of the
  block, so the result does not end with the formatted reference block.
\<close>

theorem C2_block_loses_trailing_space:
  "formatReferences samplePlatform
     [\<lparr>exactQuote = lit ''a.'', url = None\<rparr>, \<lparr>exactQuote = lit ''b.'', url = None\<rparr>,
      \<lparr>exactQuote = lit ''c.'', url = None\<rparr>]
     = Inr (lit ''[^1]: a '' @ [LF, LF] @ lit ''[^2]: b '' @ [LF, LF] @ lit ''[^3]: c '') \<and>
   buildMdFromAnswer samplePlatform
     \<lparr>answer = lit ''[^2] [^2] [^2]'',
      references = [\<lparr>exactQuote = lit ''a.'', url = None\<rparr>, \<lparr>exactQuote = lit ''b.'', url = None\<rparr>,
                    \<lparr>exactQuote = lit ''c.'', url = None\<rparr>]\<rparr>
     = Inr (lit ''[^1] [^2] [^3]'' @ [LF, LF] @
            lit ''[^1]: a '' @ [LF, LF] @ lit ''[^2]: b '' @ [LF, LF] @ lit ''[^3]: c'') \<and>
   \<not> suffix (lit ''[^1]: a '' @ [LF, LF] @ lit ''[^2]: b '' @ [LF, LF] @ lit ''[^3]: c '')
            (lit ''[^1] [^2] [^3]'' @ [LF, LF] @
             lit ''[^1]: a '' @ [LF, LF] @ lit ''[^2]: b '' @ [LF, LF] @ lit ''[^3]: c'')"
  by (simp add: ev suffix_to_prefix)

theorem C2_sequential_renumbering_witness:
  "buildMdFromAnswer samplePlatform
     \<lparr>answer = lit ''[^2] [^2] [^2]'',
      references = [\<lparr>exactQuote = lit ''a'', url = None\<rparr>, \<lparr>exactQuote = lit ''b'', url = None\<rparr>,
                    \<lparr>exactQuote = lit ''c'', url = None\<rparr>]\<rparr>
     = Inr (lit ''[^1] [^2] [^3]'' @ [LF, LF] @
            lit ''[^1]: a'' @ [LF, LF] @ lit ''[^2]: b'' @ [LF, LF] @ lit ''[^3]: c'') \<and>
   buildMdFromAnswer samplePlatform
     \<lparr>answer = lit ''x[^9]y[^7]'', references = [\<lparr>exactQuote = lit ''a'', url = None\<rparr>]\<rparr>
     = Inr (lit ''x[^1]y[^2]'' @ [LF, LF] @ lit ''[^1]: a'') \<and>
   take 2 (extractFootnotes (lit ''x[^1]y[^2]'' @ [LF, LF] @ lit ''[^1]: a'')) = [lit ''1'', lit ''2'']"
proof -
  let ?refs = "[\<lparr>exactQuote = lit ''a'', url = None\<rparr>, \<lparr>exactQuote = lit ''b'', url = None\<rparr>,
                    \<lparr>exactQuote = lit ''c'', url = None\<rparr>]"
  let ?block = "lit ''[^1]: a'' @ [LF, LF] @ lit ''[^2]: b'' @ [LF, LF] @ lit ''[^3]: c''"
  have f: "length ?refs = 3 \<and> formatReferences samplePlatform ?refs = Inr ?block"
    by (simp add: ev)
  have t: "trimEnd ?block = ?block" by (simp add: ev)
  from C2_sequential_renumbering[where refs = ?refs and P = samplePlatform and block = ?block] f
  have 1: "buildMdFromAnswer samplePlatform \<lparr>answer = lit ''[^2] [^2] [^2]'', references = ?refs\<rparr>
        = Inr (lit ''[^1] [^2] [^3]'' @ [LF, LF] @ trimEnd ?block)"
    by blast
  let ?a = "\<lparr>answer = lit ''x[^9]y[^7]'', references = [\<lparr>exactQuote = lit ''a'', url = None\<rparr>]\<rparr>"
  let ?out = "lit ''x[^1]y[^2]'' @ [LF, LF] @ lit ''[^1]: a''"
  have e: "buildMdFromAnswer samplePlatform ?a = Inr ?out"
    by (simp add: ev)
  have x: "extractFootnotes (expandGrouped (answer ?a)) = [lit ''9'', lit ''7'']"
    by (simp add: ev)
  have n: "needsCorrection [lit ''9'', lit ''7''] (length (references ?a))"
    by (simp add: ev)
  have hyp: "references ?a \<noteq> [] \<and> extractFootnotes (expandGrouped (answer ?a)) \<noteq> [] \<and>
      needsCorrection (extractFootnotes (expandGrouped (answer ?a))) (length (references ?a)) \<and>
      buildMdFromAnswer samplePlatform ?a = Inr ?out"
    using e x n by simp
  from C2_sequential_renumbering[where a = ?a and P = samplePlatform and out = ?out] hyp
  have tk: "take (length (extractFootnotes (expandGrouped (answer ?a)))) (extractFootnotes ?out)
          = map showNat [1..<Suc (length (extractFootnotes (expandGrouped (answer ?a))))]"
    by blast
  have k: "length (extractFootnotes (expandGrouped (answer ?a))) = 2" using x by simp
  have s: "map showNat [1..<Suc 2] = [lit ''1'', lit ''2'']"
    by (simp add: ev)
  from tk have 2: "take 2 (extractFootnotes ?out) = [lit ''1'', lit ''2'']"
    unfolding k s .
  from 1 t e 2 show ?thesis by simp
qed

subsection \<open>Grouped markers\<close>

lemma isNumber_takeWhile:
  assumes "isNumber d" "t = [] \<or> \<not> isDigit (hd t)"
  shows "takeWhile isDigit (d @ t) = d \<and> dropWhile isDigit (d @ t) = t"
proof -
  from assms(1) have all: "\<forall>c \<in> set d. isDigit c" by (simp add: isNumber_def list_all_iff)
  from assms(2) have "takeWhile isDigit t = [] \<and> dropWhile isDigit t = t" by (cases t) auto
  with all show ?thesis by (simp add: takeWhile_append dropWhile_append)
qed

lemma caretNumber_number:
  assumes "isNumber d" "t = [] \<or> \<not> isDigit (hd t)"
  shows "caretNumber (0x5E # d @ t) = Some t"
  using isNumber_takeWhile[OF assms] assms(1) by (simp add: caretNumber_def isNumber_def)


lemma ws_not_digit: "isWhiteSpace c \<Longrightarrow> \<not> isDigit c"
proof
  assume w: "isWhiteSpace c" and d: "isDigit c"
  from d have lo: "0x30 \<le> c" and hi: "c \<le> 0x39" by (simp_all add: isDigit_def)
  have "\<not> (0x2000 \<le> c)"
  proof
    assume "0x2000 \<le> c"
    from this hi have "(0x2000 :: jschar) \<le> 0x39" by (rule order_trans)
    then show False by simp
  qed
  with w lo hi show False by (auto simp: isWhiteSpace_def)
qed

lemma groupItem_item:
  assumes "wellFormedItem it" "t = [] \<or> \<not> isDigit (hd t)"
  shows "groupItem (groupedItem it @ t) = Some t"
proof -
  from assms(1) have w: "\<forall>c \<in> set (fst it). isWhiteSpace c" and n: "isNumber (snd it)"
    by (simp_all add: wellFormedItem_def list_all_iff)
  have "\<not> isWhiteSpace 0x5E" by (simp add: isWhiteSpace_def)
  with w have "dropWhile isWhiteSpace (fst it @ 0x5E # snd it @ t) = 0x5E # snd it @ t"
    by (simp add: dropWhile_append)
  with caretNumber_number[OF n assms(2)] show ?thesis
    by (simp add: groupItem_def groupedItem_def)
qed

lemma groupedItem_hd: "hd (groupedItem it @ t) = 0x2C"
  by (simp add: groupedItem_def)

lemma groupItems_items:
  "list_all wellFormedItem items \<Longrightarrow>
     groupItems (concat (map groupedItem items) @ 0x5D # t) = Some t"
proof (induction items)
  case Nil
  have "groupItem (0x5D # t) = None" by (simp add: groupItem_def)
  then show ?case by (subst groupItems.simps) simp
next
  case (Cons it items)
  let ?rest = "concat (map groupedItem items) @ 0x5D # t"
  have "\<not> isDigit (hd ?rest)"
  proof (cases items)
    case Nil
    then show ?thesis by (simp add: isDigit_def)
  next
    case (Cons i2 is2)
    then show ?thesis by (simp add: groupedItem_def isDigit_def)
  qed
  with Cons.prems have "groupItem (groupedItem it @ ?rest) = Some ?rest"
    by (intro groupItem_item) simp_all
  moreover from Cons have "groupItems ?rest = Some t" by simp
  ultimately show ?case by (subst groupItems.simps) simp
qed

lemma matchGrouped_marker:
  assumes d: "isNumber d" and ne: "items \<noteq> []" and wf: "list_all wellFormedItem items"
  shows "matchGrouped (groupedMarker d items @ t) = Some (groupedMarker d items, t)"
proof -
  from ne obtain it its where items: "items = it # its" by (cases items) auto
  let ?tail = "concat (map groupedItem its) @ 0x5D # t"
  have s: "groupedMarker d items @ t = 0x5B # 0x5E # d @ groupedItem it @ ?tail"
    by (simp add: groupedMarker_def items)
  have nd1: "\<not> isDigit (hd (groupedItem it @ ?tail))"
    by (simp add: groupedItem_def isDigit_def)
  have c1: "caretNumber (0x5E # d @ groupedItem it @ ?tail) = Some (groupedItem it @ ?tail)"
    using nd1 by (intro caretNumber_number[OF d]) simp
  have nd2: "\<not> isDigit (hd ?tail)"
  proof (cases its)
    case Nil
    then show ?thesis by (simp add: isDigit_def)
  next
    case (Cons i2 is2)
    then show ?thesis by (simp add: groupedItem_def isDigit_def)
  qed
  from wf items have wfi: "wellFormedItem it" and wfs: "list_all wellFormedItem its" by simp_all
  have c2: "groupItem (groupedItem it @ ?tail) = Some ?tail"
    using nd2 by (intro groupItem_item[OF wfi]) simp
  have c3: "groupItems ?tail = Some t" by (rule groupItems_items[OF wfs])
  have len: "take (length (groupedMarker d items @ t) - length t) (groupedMarker d items @ t)
               = groupedMarker d items"
    by simp
  show ?thesis
    using c1 c2 c3 len unfolding matchGrouped_def s[symmetric]
    by (simp add: s)
qed

lemma digitRuns_skip: "\<forall>c \<in> set nd. \<not> isDigit c \<Longrightarrow> digitRuns (nd @ t) = digitRuns t"
  by (induction nd) simp_all

lemma digitRuns_number:
  assumes "isNumber d" "t = [] \<or> \<not> isDigit (hd t)"
  shows "digitRuns (d @ t) = d # digitRuns t"
proof -
  from assms(1) obtain c d' where d: "d = c # d'" and c: "isDigit c"
    and d': "list_all isDigit d'"
    by (cases d) (auto simp: isNumber_def)
  from d' have all: "\<forall>x \<in> set d'. isDigit x" by (simp add: list_all_iff)
  from assms(2) have "takeWhile isDigit t = [] \<and> dropWhile isDigit t = t" by (cases t) auto
  with all have "takeWhile isDigit (d' @ t) = d' \<and> dropWhile isDigit (d' @ t) = t"
    by (simp add: takeWhile_append dropWhile_append)
  with d c show ?thesis by simp
qed

lemma digitRuns_item:
  assumes "wellFormedItem it" "t = [] \<or> \<not> isDigit (hd t)"
  shows "digitRuns (groupedItem it @ t) = snd it # digitRuns t"
proof -
  from assms(1) have w: "\<forall>c \<in> set (fst it). isWhiteSpace c" and n: "isNumber (snd it)"
    by (simp_all add: wellFormedItem_def list_all_iff)
  have "\<forall>c \<in> set (0x2C # fst it @ [0x5E]). \<not> isDigit c"
    using w ws_not_digit by (auto simp: isDigit_def)
  then have "digitRuns ((0x2C # fst it @ [0x5E]) @ (snd it @ t)) = digitRuns (snd it @ t)"
    by (rule digitRuns_skip)
  with digitRuns_number[OF n assms(2)] show ?thesis by (simp add: groupedItem_def)
qed

lemma digitRuns_items:
  "list_all wellFormedItem items \<Longrightarrow>
     digitRuns (concat (map groupedItem items) @ [0x5D]) = map snd items"
proof (induction items)
  case Nil
  show ?case by (simp add: isDigit_def)
next
  case (Cons it items)
  let ?rest = "concat (map groupedItem items) @ [0x5D]"
  have "\<not> isDigit (hd ?rest)"
  proof (cases items)
    case Nil
    then show ?thesis by (simp add: isDigit_def)
  next
    case (Cons i2 is2)
    then show ?thesis by (simp add: groupedItem_def isDigit_def)
  qed
  with Cons.prems have "digitRuns (groupedItem it @ ?rest) = snd it # digitRuns ?rest"
    by (intro digitRuns_item) simp_all
  with Cons show ?case by simp
qed

lemma digitRuns_groupedMarker:
  assumes d: "isNumber d" and wf: "list_all wellFormedItem items"
  shows "digitRuns (groupedMarker d items) = d # map snd items"
proof -
  let ?rest = "concat (map groupedItem items) @ [0x5D]"
  have nd: "\<not> isDigit (hd ?rest)"
  proof (cases items)
    case Nil
    then show ?thesis by (simp add: isDigit_def)
  next
    case (Cons i2 is2)
    then show ?thesis by (simp add: groupedItem_def isDigit_def)
  qed
  have "digitRuns ([0x5B, 0x5E] @ (d @ ?rest)) = digitRuns (d @ ?rest)"
    by (rule digitRuns_skip) (simp add: isDigit_def)
  also have "\<dots> = d # digitRuns ?rest" using nd by (intro digitRuns_number[OF d]) simp
  finally show ?thesis using digitRuns_items[OF wf] by (simp add: groupedMarker_def)
qed

lemma matchGrouped_not_bracket: "c \<noteq> 0x5B \<Longrightarrow> matchGrouped (c # cs) = None"
  by (simp add: matchGrouped_def)

lemma expandGrouped_skip:
  "0x5B \<notin> set pre \<Longrightarrow> expandGrouped (pre @ t) = pre @ expandGrouped t"
  by (induction pre) (simp_all add: matchGrouped_not_bracket)

lemma expandGrouped_marker:
  assumes "0x5B \<notin> set pre" "isNumber d" "items \<noteq> []" "list_all wellFormedItem items"
  shows "expandGrouped (pre @ groupedMarker d items @ t)
           = pre @ join (lit '', '') (map marker (d # map snd items)) @ expandGrouped t"
proof -
  have m: "matchGrouped (groupedMarker d items @ t) = Some (groupedMarker d items, t)"
    by (rule matchGrouped_marker[OF assms(2-4)])
  obtain r where c: "groupedMarker d items @ t = 0x5B # r" by (simp add: groupedMarker_def)
  from m have "expandGrouped (groupedMarker d items @ t)
                 = expandGroup (groupedMarker d items) @ expandGrouped t"
    unfolding c by simp
  also have "expandGroup (groupedMarker d items) = join (lit '', '') (map marker (d # map snd items))"
    using digitRuns_groupedMarker[OF assms(2,4)] by (simp add: expandGroup_def)
  finally show ?thesis using expandGrouped_skip[OF assms(1)] by simp
qed

lemma matchGrouped_single:
  assumes "isNumber d"
  shows "matchGrouped (marker d @ t) = None"
proof -
  have "\<not> isDigit (hd (0x5D # t))" by (simp add: isDigit_def)
  then have "caretNumber (0x5E # d @ 0x5D # t) = Some (0x5D # t)"
    by (intro caretNumber_number[OF assms]) simp
  moreover have "groupItem (0x5D # t) = None" by (simp add: groupItem_def)
  ultimately show ?thesis by (simp add: matchGrouped_def marker_Cons)
qed

lemma expandGrouped_single:
  assumes "0x5B \<notin> set pre" "isNumber d"
  shows "expandGrouped (pre @ marker d @ t) = pre @ marker d @ expandGrouped t"
proof -
  from assms(2) have "\<forall>c \<in> set d. isDigit c" by (simp add: isNumber_def list_all_iff)
  then have "0x5B \<notin> set d" by (auto simp: isDigit_def)
  then have nb: "0x5B \<notin> set (0x5E # d @ [0x5D])" by simp
  have "expandGrouped (marker d @ t) = 0x5B # expandGrouped ((0x5E # d @ [0x5D]) @ t)"
    using matchGrouped_single[OF assms(2), of t] by (simp add: marker_Cons)
  also have "expandGrouped ((0x5E # d @ [0x5D]) @ t) = (0x5E # d @ [0x5D]) @ expandGrouped t"
    by (rule expandGrouped_skip[OF nb])
  finally have "expandGrouped (marker d @ t) = marker d @ expandGrouped t"
    by (simp add: marker_Cons)
  with expandGrouped_skip[OF assms(1)] show ?thesis by simp
qed

text \<open>The first marker of a text, and the text before it.\<close>

lemma hasMarker_Nil: "\<not> hasMarker []"
  by (simp add: hasMarker_def matchFootnote_def)

lemma hasMarker_suffix: "hasMarker s \<longleftrightarrow> (\<exists>u. suffix u s \<and> matchFootnote u \<noteq> None)"
  unfolding hasMarker_def list_ex_iff by (simp only: in_set_suffixes Bex_def)

lemma hasMarker_Cons:
  "hasMarker (c # cs) \<longleftrightarrow> (matchFootnote (c # cs) = None \<longrightarrow> hasMarker cs)"
  unfolding hasMarker_suffix suffix_Cons by blast

lemma isNumber_iff: "isNumber d \<longleftrightarrow> d \<noteq> [] \<and> (\<forall>c \<in> set d. isDigit c)"
  by (simp add: isNumber_def list_all_iff)

lemma hasMarker_iff: "hasMarker s \<longleftrightarrow> (\<exists>d. isNumber d \<and> sublist (marker d) s)"
proof
  assume "hasMarker s"
  then obtain u where su: "suffix u s" and m: "matchFootnote u \<noteq> None"
    unfolding hasMarker_suffix by blast
  from m obtain d q where "matchFootnote u = Some (d, q)" by auto
  from matchFootnote_SomeD[OF this] have u: "u = marker d @ q" and d: "isNumber d"
    by (simp_all add: isNumber_iff)
  from su obtain p where "s = p @ u" by (auto simp: suffix_def)
  with u have "s = p @ marker d @ q" by simp
  then have "sublist (marker d) s" unfolding sublist_def by blast
  with d show "\<exists>d. isNumber d \<and> sublist (marker d) s" by blast
next
  assume "\<exists>d. isNumber d \<and> sublist (marker d) s"
  then obtain d p q where d: "isNumber d" and s: "s = p @ marker d @ q"
    unfolding sublist_def by blast
  from d have "matchFootnote (marker d @ q) = Some (d, q)"
    by (intro matchFootnote_marker) (simp_all add: isNumber_iff)
  moreover from s have "suffix (marker d @ q) s" by (simp add: suffix_def)
  ultimately show "hasMarker s" unfolding hasMarker_suffix by force
qed

lemma stripFootnotes_unchanged: "\<not> hasMarker s \<Longrightarrow> stripFootnotes s = s"
  by (induction s) (simp_all add: hasMarker_Cons)

lemma extractFootnotes_Nil_iff: "extractFootnotes s = [] \<longleftrightarrow> \<not> hasMarker s"
proof (induction s)
  case Nil
  show ?case by (simp add: hasMarker_Nil)
next
  case (Cons c cs)
  show ?case
  proof (cases "matchFootnote (c # cs)")
    case None
    with Cons show ?thesis by (simp add: hasMarker_Cons)
  next
    case (Some p)
    then show ?thesis by (cases p) (simp add: hasMarker_Cons)
  qed
qed

lemma stripFootnotes_first:
  assumes d: "isNumber d"
  shows "\<not> hasMarker pre \<Longrightarrow> stripFootnotes (pre @ marker d @ t) = pre @ stripFootnotes t"
proof (induction pre)
  case Nil
  from d have "matchFootnote (marker d @ t) = Some (d, t)"
    by (intro matchFootnote_marker) (simp_all add: isNumber_iff)
  then show ?case by (simp add: marker_Cons)
next
  case (Cons c cs)
  from Cons.prems have n: "matchFootnote (c # cs) = None" and h: "\<not> hasMarker cs"
    by (simp_all add: hasMarker_Cons)
  have safe: "marker d @ t = [] \<or>
                (hd (marker d @ t) \<noteq> 0x5E \<and> hd (marker d @ t) \<noteq> 0x5D \<and> \<not> isDigit (hd (marker d @ t)))"
    by (simp add: marker_Cons isDigit_def)
  have "matchFootnote ((c # cs) @ marker d @ t) = None"
    by (rule matchFootnote_append_None[OF n _ safe]) simp
  with Cons.IH[OF h] show ?case by simp
qed

lemma hasMarker_first:
  "hasMarker s \<Longrightarrow> \<exists>pre d rest. s = pre @ marker d @ rest \<and> isNumber d \<and> \<not> hasMarker pre"
proof (induction s)
  case Nil
  then show ?case by (simp add: hasMarker_Nil)
next
  case (Cons c cs)
  show ?case
  proof (cases "matchFootnote (c # cs)")
    case (Some p)
    obtain d rest where "p = (d, rest)" by (cases p)
    with Some matchFootnote_SomeD[of "c # cs" d rest]
    have "c # cs = [] @ marker d @ rest" and "isNumber d" by (simp_all add: isNumber_iff)
    with hasMarker_Nil show ?thesis by blast
  next
    case None
    with Cons.prems have "hasMarker cs" by (simp add: hasMarker_Cons)
    from Cons.IH[OF this] obtain pre d rest where
      cs: "cs = pre @ marker d @ rest" and d: "isNumber d" and np: "\<not> hasMarker pre" by blast
    have "matchFootnote (c # pre) = None"
    proof (rule ccontr)
      assume "matchFootnote (c # pre) \<noteq> None"
      then obtain d' q' where "matchFootnote (c # pre) = Some (d', q')" by auto
      from matchFootnote_append_Some[OF this, of "marker d @ rest"] None cs
      show False by simp
    qed
    with np have "\<not> hasMarker (c # pre)" by (simp add: hasMarker_Cons)
    moreover from cs have "c # cs = (c # pre) @ marker d @ rest" by simp
    ultimately show ?thesis using d by blast
  qed
qed

lemma markersSeparated_Cons:
  "markersSeparated (c # cs) \<longleftrightarrow>
     (case matchFootnote (c # cs) of
        None \<Rightarrow> True
      | Some (d, q) \<Rightarrow> q = [] \<or> \<not> continuesMarker (hd q)) \<and> markersSeparated cs"
  unfolding markersSeparated_def by (simp only: suffixes.simps list_all_append list.pred_inject) blast

lemma markersSeparated_append: "markersSeparated (p @ t) \<Longrightarrow> markersSeparated t"
  by (induction p) (simp_all add: markersSeparated_Cons)

lemma markersSeparated_marker:
  assumes "markersSeparated (marker d @ q)" "isNumber d"
  shows "q = [] \<or> \<not> continuesMarker (hd q)"
proof -
  from assms(2) have "matchFootnote (marker d @ q) = Some (d, q)"
    by (intro matchFootnote_marker) (simp_all add: isNumber_iff)
  moreover obtain r where "marker d @ q = 0x5B # r" by (simp add: marker_Cons)
  ultimately show ?thesis using assms(1) by (simp add: markersSeparated_Cons)
qed

lemma markersSeparated_iff:
  "markersSeparated t \<longleftrightarrow>
     (\<forall>p d q. isNumber d \<and> t = p @ marker d @ q \<longrightarrow> q = [] \<or> \<not> continuesMarker (hd q))"
proof
  assume a: "markersSeparated t"
  show "\<forall>p d q. isNumber d \<and> t = p @ marker d @ q \<longrightarrow> q = [] \<or> \<not> continuesMarker (hd q)"
  proof (intro allI impI)
    fix p d q assume h: "isNumber d \<and> t = p @ marker d @ q"
    with a have "markersSeparated (marker d @ q)" using markersSeparated_append[of p "marker d @ q"] by simp
    with h show "q = [] \<or> \<not> continuesMarker (hd q)" using markersSeparated_marker[of d q] by blast
  qed
next
  assume a: "\<forall>p d q. isNumber d \<and> t = p @ marker d @ q \<longrightarrow> q = [] \<or> \<not> continuesMarker (hd q)"
  show "markersSeparated t"
    unfolding markersSeparated_def list_all_iff
  proof
    fix u assume "u \<in> set (suffixes t)"
    then have "suffix u t" by (simp only: in_set_suffixes)
    then obtain p where t: "t = p @ u" by (auto simp: suffix_def)
    show "case matchFootnote u of None \<Rightarrow> True | Some (d, q) \<Rightarrow> q = [] \<or> \<not> continuesMarker (hd q)"
    proof (cases "matchFootnote u")
      case None
      then show ?thesis by simp
    next
      case (Some x)
      obtain d q where x: "x = (d, q)" by (cases x)
      with Some matchFootnote_SomeD[of u d q] have "u = marker d @ q" and "isNumber d"
        by (simp_all add: isNumber_iff)
      with t a have "q = [] \<or> \<not> continuesMarker (hd q)" by blast
      with Some x show ?thesis by simp
    qed
  qed
qed

lemma stripFootnotes_start:
  "markersSeparated t \<Longrightarrow> t = [] \<or> \<not> continuesMarker (hd t) \<Longrightarrow>
     stripFootnotes t = [] \<or> \<not> continuesMarker (hd (stripFootnotes t))"
proof (induction t rule: stripFootnotes.induct)
  case 1
  show ?case by simp
next
  case (2 c cs)
  show ?case
  proof (cases "matchFootnote (c # cs)")
    case None
    with "2.prems"(2) show ?thesis by simp
  next
    case (Some x)
    obtain d rest where x: "x = (d, rest)" by (cases x)
    with Some have m: "matchFootnote (c # cs) = Some (d, rest)" by simp
    from "2.prems"(1) m have r: "rest = [] \<or> \<not> continuesMarker (hd rest)"
      by (simp add: markersSeparated_Cons)
    from matchFootnote_suffix[OF m] obtain p where "c # cs = p @ rest" by (auto simp: suffix_def)
    with "2.prems"(1) markersSeparated_append[of p rest] have "markersSeparated rest" by simp
    from "2.IH"(2)[OF m refl this r] m show ?thesis by simp
  qed
qed

lemma stripFootnotes_no_marker:
  "markersSeparated t \<Longrightarrow> \<not> hasMarker (stripFootnotes t)"
proof (induction t rule: length_induct)
  case (1 t)
  show ?case
  proof (cases "hasMarker t")
    case False
    then show ?thesis by (simp add: stripFootnotes_unchanged)
  next
    case True
    from hasMarker_first[OF True] obtain pre d rest where
      t: "t = pre @ marker d @ rest" and d: "isNumber d" and np: "\<not> hasMarker pre" by blast
    from "1.prems" t have s1: "markersSeparated (marker d @ rest)"
      using markersSeparated_append[of pre "marker d @ rest"] by simp
    then have s2: "markersSeparated rest" by (rule markersSeparated_append)
    from markersSeparated_marker[OF s1 d] have r: "rest = [] \<or> \<not> continuesMarker (hd rest)" .
    from stripFootnotes_start[OF s2 r]
    have safe: "stripFootnotes rest = [] \<or>
                  (hd (stripFootnotes rest) \<noteq> 0x5E \<and> hd (stripFootnotes rest) \<noteq> 0x5D \<and>
                   \<not> isDigit (hd (stripFootnotes rest)))"
      by (simp add: continuesMarker_def)
    from t have "length rest < length t" by (simp add: marker_Cons)
    with "1.IH" s2 have "\<not> hasMarker (stripFootnotes rest)" by blast
    then have e2: "extractFootnotes (stripFootnotes rest) = []"
      by (rule extractFootnotes_Nil_iff[THEN iffD2])
    from np have e1: "extractFootnotes pre = []" by (rule extractFootnotes_Nil_iff[THEN iffD2])
    have "extractFootnotes (pre @ stripFootnotes rest) = []"
      using extractFootnotes_append[OF safe, of pre] e1 e2 by simp
    then have "\<not> hasMarker (pre @ stripFootnotes rest)" by (rule extractFootnotes_Nil_iff[THEN iffD1])
    with stripFootnotes_first[OF d np, of rest] t show ?thesis by simp
  qed
qed

text \<open>The same when no marker is immediately preceded by the beginning of one.\<close>

lemma setOffAfter_iff:
  "setOffAfter prev t \<longleftrightarrow>
     (\<forall>p d q. isNumber d \<and> t = p @ marker d @ q \<longrightarrow>
        (p = [] \<longrightarrow> (case prev of None \<Rightarrow> True | Some x \<Rightarrow> \<not> opensMarker x)) \<and>
        (p \<noteq> [] \<longrightarrow> \<not> opensMarker (last p)))"
proof (induction t arbitrary: prev)
  case Nil
  show ?case by (simp add: marker_Cons)
next
  case (Cons c cs)
  let ?ok = "\<lambda>prev. case prev of None \<Rightarrow> True | Some x \<Rightarrow> \<not> opensMarker x"
  have ih: "setOffAfter (Some c) cs \<longleftrightarrow>
              (\<forall>p d q. isNumber d \<and> cs = p @ marker d @ q \<longrightarrow>
                 (p = [] \<longrightarrow> \<not> opensMarker c) \<and> (p \<noteq> [] \<longrightarrow> \<not> opensMarker (last p)))"
    using Cons.IH[of "Some c"] by simp
  show ?case
  proof
    assume a: "setOffAfter prev (c # cs)"
    then have h: "matchFootnote (c # cs) = None \<or> ?ok prev" and r: "setOffAfter (Some c) cs"
      by simp_all
    show "\<forall>p d q. isNumber d \<and> c # cs = p @ marker d @ q \<longrightarrow>
            (p = [] \<longrightarrow> ?ok prev) \<and> (p \<noteq> [] \<longrightarrow> \<not> opensMarker (last p))"
    proof (intro allI impI)
      fix p d q assume e: "isNumber d \<and> c # cs = p @ marker d @ q"
      show "(p = [] \<longrightarrow> ?ok prev) \<and> (p \<noteq> [] \<longrightarrow> \<not> opensMarker (last p))"
      proof (cases p)
        case Nil
        with e have "matchFootnote (c # cs) = Some (d, q)"
          using matchFootnote_marker[of d q] by (simp add: isNumber_iff)
        with h Nil show ?thesis by simp
      next
        case (Cons x p')
        with e have cs: "isNumber d \<and> cs = p' @ marker d @ q" and x: "x = c" by simp_all
        from r ih cs have "(p' = [] \<longrightarrow> \<not> opensMarker c) \<and> (p' \<noteq> [] \<longrightarrow> \<not> opensMarker (last p'))"
          by blast
        with Cons x show ?thesis by (cases "p' = []") simp_all
      qed
    qed
  next
    assume a: "\<forall>p d q. isNumber d \<and> c # cs = p @ marker d @ q \<longrightarrow>
                 (p = [] \<longrightarrow> ?ok prev) \<and> (p \<noteq> [] \<longrightarrow> \<not> opensMarker (last p))"
    have 1: "matchFootnote (c # cs) = None \<or> ?ok prev"
    proof (cases "matchFootnote (c # cs)")
      case None
      then show ?thesis by simp
    next
      case (Some y)
      obtain d q where "y = (d, q)" by (cases y)
      with Some matchFootnote_SomeD[of "c # cs" d q]
      have "isNumber d \<and> c # cs = [] @ marker d @ q" by (simp add: isNumber_iff)
      with a have "([] :: jstring) = [] \<longrightarrow> ?ok prev" by blast
      then show ?thesis by simp
    qed
    have "\<forall>p d q. isNumber d \<and> cs = p @ marker d @ q \<longrightarrow>
            (p = [] \<longrightarrow> \<not> opensMarker c) \<and> (p \<noteq> [] \<longrightarrow> \<not> opensMarker (last p))"
    proof (intro allI impI)
      fix p d q assume e: "isNumber d \<and> cs = p @ marker d @ q"
      then have "isNumber d \<and> c # cs = (c # p) @ marker d @ q" by simp
      with a have "c # p \<noteq> [] \<longrightarrow> \<not> opensMarker (last (c # p))" by blast
      then show "(p = [] \<longrightarrow> \<not> opensMarker c) \<and> (p \<noteq> [] \<longrightarrow> \<not> opensMarker (last p))"
        by (cases "p = []") simp_all
    qed
    with ih have 2: "setOffAfter (Some c) cs" by simp
    from 1 2 show "setOffAfter prev (c # cs)" by simp
  qed
qed

lemma markersSetOff_iff:
  "markersSetOff t \<longleftrightarrow>
     (\<forall>p d q. isNumber d \<and> t = p @ marker d @ q \<longrightarrow> p = [] \<or> \<not> opensMarker (last p))"
  unfolding markersSetOff_def setOffAfter_iff by auto

lemma markersSetOff_rest:
  assumes "markersSetOff (pre @ marker d @ rest)"
  shows "markersSetOff rest"
  unfolding markersSetOff_iff
proof (intro allI impI)
  fix p d' q assume e: "isNumber d' \<and> rest = p @ marker d' @ q"
  show "p = [] \<or> \<not> opensMarker (last p)"
  proof (cases "p = []")
    case True
    then show ?thesis by simp
  next
    case False
    from e have "isNumber d' \<and> pre @ marker d @ rest = (pre @ marker d @ p) @ marker d' @ q" by simp
    with assms have "pre @ marker d @ p = [] \<or> \<not> opensMarker (last (pre @ marker d @ p))"
      unfolding markersSetOff_iff by blast
    with False show ?thesis by simp
  qed
qed

lemma matchFootnote_append_None_left:
  assumes n: "matchFootnote s = None" and ne: "s \<noteq> []" and safe: "\<not> opensMarker (last s)"
  shows "matchFootnote (s @ t) = None"
proof (rule ccontr)
  assume "matchFootnote (s @ t) \<noteq> None"
  then obtain ds rest where m: "matchFootnote (s @ t) = Some (ds, rest)" by auto
  from matchFootnote_SomeD[OF m]
  have e: "s @ t = marker ds @ rest" and d: "ds \<noteq> []" "\<forall>c \<in> set ds. isDigit c" by simp_all
  from e obtain us where "(s = marker ds @ us \<and> us @ t = rest) \<or> (s @ us = marker ds \<and> t = us @ rest)"
    by (auto simp: append_eq_append_conv2)
  then show False
  proof
    assume "s = marker ds @ us \<and> us @ t = rest"
    with matchFootnote_marker[OF d, of us] n show False by simp
  next
    assume h: "s @ us = marker ds \<and> t = us @ rest"
    show False
    proof (cases "us = []")
      case True
      with h have "s = marker ds @ []" by simp
      with matchFootnote_marker[OF d, of "[]"] n show False by simp
    next
      case False
      from h have "s @ us = (0x5B # 0x5E # ds) @ [0x5D]" by (simp add: marker_Cons)
      with False have "prefix s (0x5B # 0x5E # ds)"
        by (metis append_butlast_last_id butlast_append butlast_snoc prefix_def)
      then have "set s \<subseteq> set (0x5B # 0x5E # ds)" by (rule set_mono_prefix)
      with ne have "last s \<in> set (0x5B # 0x5E # ds)" using last_in_set by blast
      with d(2) have "opensMarker (last s)" by (auto simp: opensMarker_def)
      with safe show False by simp
    qed
  qed
qed

lemma extractFootnotes_append_left:
  "s = [] \<or> \<not> opensMarker (last s) \<Longrightarrow>
     extractFootnotes (s @ t) = extractFootnotes s @ extractFootnotes t"
proof (induction s rule: extractFootnotes.induct)
  case 1
  show ?case by simp
next
  case (2 c cs)
  from "2.prems" have l: "\<not> opensMarker (last (c # cs))" by simp
  show ?case
  proof (cases "matchFootnote (c # cs)")
    case None
    have "matchFootnote ((c # cs) @ t) = None"
      by (rule matchFootnote_append_None_left[OF None _ l]) simp
    moreover from l have "cs = [] \<or> \<not> opensMarker (last cs)" by (cases "cs = []") simp_all
    ultimately show ?thesis using None "2.IH"(1)[OF None] by simp
  next
    case (Some p)
    obtain ds rest where p: "p = (ds, rest)" by (cases p)
    with Some have m: "matchFootnote (c # cs) = Some (ds, rest)" by simp
    from matchFootnote_append_Some[OF m, of t] have a: "matchFootnote ((c # cs) @ t) = Some (ds, rest @ t)" .
    from matchFootnote_SomeD[OF m] have "c # cs = marker ds @ rest" by simp
    with l have "rest = [] \<or> \<not> opensMarker (last rest)" by (cases "rest = []") auto
    with m a "2.IH"(2)[OF m refl] show ?thesis by simp
  qed
qed

lemma stripFootnotes_no_marker_left:
  "markersSetOff t \<Longrightarrow> \<not> hasMarker (stripFootnotes t)"
proof (induction t rule: length_induct)
  case (1 t)
  show ?case
  proof (cases "hasMarker t")
    case False
    then show ?thesis by (simp add: stripFootnotes_unchanged)
  next
    case True
    from hasMarker_first[OF True] obtain pre d rest where
      t: "t = pre @ marker d @ rest" and d: "isNumber d" and np: "\<not> hasMarker pre" by blast
    from "1.prems" t d have l: "pre = [] \<or> \<not> opensMarker (last pre)"
      unfolding markersSetOff_iff by blast
    from "1.prems" t have s2: "markersSetOff rest" using markersSetOff_rest[of pre d rest] by simp
    from t have "length rest < length t" by (simp add: marker_Cons)
    with "1.IH" s2 have "\<not> hasMarker (stripFootnotes rest)" by blast
    then have e2: "extractFootnotes (stripFootnotes rest) = []"
      by (rule extractFootnotes_Nil_iff[THEN iffD2])
    from np have e1: "extractFootnotes pre = []" by (rule extractFootnotes_Nil_iff[THEN iffD2])
    have "extractFootnotes (pre @ stripFootnotes rest) = []"
      using extractFootnotes_append_left[OF l, of "stripFootnotes rest"] e1 e2 by simp
    then have "\<not> hasMarker (pre @ stripFootnotes rest)" by (rule extractFootnotes_Nil_iff[THEN iffD1])
    with stripFootnotes_first[OF d np, of rest] t show ?thesis by simp
  qed
qed

text \<open>What \<open>groupedFootnoteRegex\<close> matches is a grouped marker.\<close>

lemma hasGroupedMarker_suffix:
  "hasGroupedMarker s \<longleftrightarrow> (\<exists>u. suffix u s \<and> matchGrouped u \<noteq> None)"
  unfolding hasGroupedMarker_def list_ex_iff by (simp only: in_set_suffixes Bex_def)

lemma hasGroupedMarker_Cons:
  "hasGroupedMarker (c # cs) \<longleftrightarrow> (matchGrouped (c # cs) = None \<longrightarrow> hasGroupedMarker cs)"
  unfolding hasGroupedMarker_suffix suffix_Cons by blast

lemma hasGroupedMarker_Nil: "\<not> hasGroupedMarker []"
  by (simp add: hasGroupedMarker_def matchGrouped_def)

lemma expandGrouped_unchanged: "\<not> hasGroupedMarker s \<Longrightarrow> expandGrouped s = s"
  by (induction s) (simp_all add: hasGroupedMarker_Cons)

lemma caretNumber_SomeD:
  assumes "caretNumber s = Some r"
  shows "\<exists>d. isNumber d \<and> s = 0x5E # d @ r \<and> (r = [] \<or> \<not> isDigit (hd r))"
proof -
  from assms obtain t where s: "s = 0x5E # t" and ne: "takeWhile isDigit t \<noteq> []"
    and r: "r = dropWhile isDigit t"
    by (auto simp: caretNumber_def split: list.splits if_splits)
  have "\<forall>c \<in> set (takeWhile isDigit t). isDigit c" using set_takeWhileD by fastforce
  with ne have "isNumber (takeWhile isDigit t)" by (simp add: isNumber_iff)
  moreover have "s = 0x5E # takeWhile isDigit t @ r" using s r by simp
  moreover have "r = [] \<or> \<not> isDigit (hd r)" unfolding r using hd_dropWhile[of isDigit t] by blast
  ultimately show ?thesis by blast
qed

lemma groupItem_SomeD:
  assumes "groupItem s = Some r"
  shows "\<exists>it. wellFormedItem it \<and> s = groupedItem it @ r"
proof -
  from assms obtain t where s: "s = 0x2C # t"
    and c: "caretNumber (dropWhile isWhiteSpace t) = Some r"
    by (auto simp: groupItem_def split: list.splits if_splits)
  from caretNumber_SomeD[OF c] obtain d where d: "isNumber d"
    and e: "dropWhile isWhiteSpace t = 0x5E # d @ r" by blast
  have w: "list_all isWhiteSpace (takeWhile isWhiteSpace t)"
    unfolding list_all_iff using set_takeWhileD by fastforce
  have "t = takeWhile isWhiteSpace t @ dropWhile isWhiteSpace t" by simp
  with e have "t = takeWhile isWhiteSpace t @ 0x5E # d @ r" by simp
  with s have "s = groupedItem (takeWhile isWhiteSpace t, d) @ r" by (simp add: groupedItem_def)
  moreover from w d have "wellFormedItem (takeWhile isWhiteSpace t, d)" by (simp add: wellFormedItem_def)
  ultimately show ?thesis by blast
qed

lemma groupItems_SomeD:
  "groupItems s = Some r \<Longrightarrow>
     \<exists>items. list_all wellFormedItem items \<and> s = concat (map groupedItem items) @ 0x5D # r"
proof (induction s rule: groupItems.induct)
  case (1 s)
  show ?case
  proof (cases "groupItem s")
    case None
    with "1.prems" have "s = 0x5D # r"
      by (subst (asm) groupItems.simps) (auto split: list.splits if_splits)
    then have "list_all wellFormedItem [] \<and> s = concat (map groupedItem []) @ 0x5D # r" by simp
    then show ?thesis by blast
  next
    case (Some t)
    with "1.prems" have "groupItems t = Some r" by (subst (asm) groupItems.simps) simp
    from "1.IH"[OF Some this] obtain items where
      wf: "list_all wellFormedItem items" and t: "t = concat (map groupedItem items) @ 0x5D # r"
      by blast
    from groupItem_SomeD[OF Some] obtain it where i: "wellFormedItem it" and s: "s = groupedItem it @ t"
      by blast
    from wf i have "list_all wellFormedItem (it # items)" by simp
    moreover from s t have "s = concat (map groupedItem (it # items)) @ 0x5D # r" by simp
    ultimately show ?thesis by blast
  qed
qed

lemma matchGrouped_SomeD:
  assumes "matchGrouped s = Some (m, rest)"
  shows "s = m @ rest \<and>
         (\<exists>d items. isNumber d \<and> items \<noteq> [] \<and> list_all wellFormedItem items \<and>
                     m = groupedMarker d items)"
proof -
  from assms obtain t r1 r2 where s: "s = 0x5B # t" and c: "caretNumber t = Some r1"
    and g: "groupItem r1 = Some r2" and gs: "groupItems r2 = Some rest"
    and m: "m = take (length s - length rest) s"
    by (auto simp: matchGrouped_def split: list.splits if_splits option.splits)
  from caretNumber_SomeD[OF c] obtain d where d: "isNumber d" and t: "t = 0x5E # d @ r1" by blast
  from groupItem_SomeD[OF g] obtain it where i: "wellFormedItem it" and r1: "r1 = groupedItem it @ r2"
    by blast
  from groupItems_SomeD[OF gs] obtain items where wf: "list_all wellFormedItem items"
    and r2: "r2 = concat (map groupedItem items) @ 0x5D # rest" by blast
  have e: "s = groupedMarker d (it # items) @ rest"
    using s t r1 r2 by (simp add: groupedMarker_def)
  then have "m = groupedMarker d (it # items)" unfolding m by simp
  moreover from wf i have "list_all wellFormedItem (it # items)" by simp
  ultimately show ?thesis using e d by blast
qed

lemma hasGroupedMarker_iff:
  "hasGroupedMarker s \<longleftrightarrow>
     (\<exists>d items. isNumber d \<and> items \<noteq> [] \<and> list_all wellFormedItem items \<and>
                 sublist (groupedMarker d items) s)"
proof
  assume "hasGroupedMarker s"
  then obtain u where su: "suffix u s" and m: "matchGrouped u \<noteq> None"
    unfolding hasGroupedMarker_suffix by blast
  from m obtain g q where "matchGrouped u = Some (g, q)" by auto
  from matchGrouped_SomeD[OF this] obtain d items where u: "u = g @ q" and d: "isNumber d"
    and i: "items \<noteq> []" "list_all wellFormedItem items" and g: "g = groupedMarker d items"
    by blast
  from su obtain p where "s = p @ u" by (auto simp: suffix_def)
  with u g have "s = p @ groupedMarker d items @ q" by simp
  then have "sublist (groupedMarker d items) s" unfolding sublist_def by blast
  with d i show "\<exists>d items. isNumber d \<and> items \<noteq> [] \<and> list_all wellFormedItem items \<and>
                   sublist (groupedMarker d items) s" by blast
next
  assume "\<exists>d items. isNumber d \<and> items \<noteq> [] \<and> list_all wellFormedItem items \<and>
                   sublist (groupedMarker d items) s"
  then obtain d items p q where d: "isNumber d" and i: "items \<noteq> []" "list_all wellFormedItem items"
    and s: "s = p @ groupedMarker d items @ q"
    unfolding sublist_def by blast
  have "matchGrouped (groupedMarker d items @ q) = Some (groupedMarker d items, q)"
    by (rule matchGrouped_marker[OF d i])
  moreover from s have "suffix (groupedMarker d items @ q) s" by (simp add: suffix_def)
  ultimately show "hasGroupedMarker s" unfolding hasGroupedMarker_suffix by force
qed

lemma digit_not_bracket: "isDigit c \<Longrightarrow> c \<noteq> 0x5B"
  by (auto simp: isDigit_def)

lemma groupedItem_no_bracket: "wellFormedItem it \<Longrightarrow> 0x5B \<notin> set (groupedItem it)"
  using not_ws_bracket digit_not_bracket
  by (auto simp: wellFormedItem_def groupedItem_def isNumber_iff list_all_iff)

lemma groupedMarker_body:
  assumes "isNumber d" "list_all wellFormedItem items"
  shows "\<exists>body. groupedMarker d items = 0x5B # body \<and> 0x5B \<notin> set body"
proof -
  from assms(1) have "0x5B \<notin> set d" using digit_not_bracket by (auto simp: isNumber_iff)
  moreover from assms(2) have "0x5B \<notin> set (concat (map groupedItem items))"
    using groupedItem_no_bracket by (auto simp: list_all_iff)
  ultimately have "0x5B \<notin> set (0x5E # d @ concat (map groupedItem items) @ [0x5D])" by simp
  then show ?thesis unfolding groupedMarker_def by blast
qed

lemma matchGrouped_before_bracket:
  assumes n: "matchGrouped s = None" and ne: "s \<noteq> []"
  shows "matchGrouped (s @ 0x5B # t) = None"
proof (rule ccontr)
  assume "matchGrouped (s @ 0x5B # t) \<noteq> None"
  then obtain m rest where "matchGrouped (s @ 0x5B # t) = Some (m, rest)" by auto
  from matchGrouped_SomeD[OF this] obtain d items where e: "s @ 0x5B # t = m @ rest"
    and d: "isNumber d" and i: "items \<noteq> []" "list_all wellFormedItem items"
    and m: "m = groupedMarker d items" by blast
  from groupedMarker_body[OF d i(2)] m obtain body where b: "m = 0x5B # body" "0x5B \<notin> set body"
    by blast
  from e obtain us where "(s = m @ us \<and> us @ 0x5B # t = rest) \<or> (s @ us = m \<and> 0x5B # t = us @ rest)"
    by (auto simp: append_eq_append_conv2)
  then show False
  proof
    assume "s = m @ us \<and> us @ 0x5B # t = rest"
    with matchGrouped_marker[OF d i, of us] m n show False by simp
  next
    assume h: "s @ us = m \<and> 0x5B # t = us @ rest"
    show False
    proof (cases "us = []")
      case True
      with h have "s = m @ []" by simp
      with matchGrouped_marker[OF d i, of "[]"] m n show False by simp
    next
      case False
      with h have "hd us = 0x5B" by (cases us) auto
      with False have in_us: "0x5B \<in> set us" using hd_in_set by metis
      from ne obtain c s' where s: "s = c # s'" by (cases s) auto
      with h b have "s' @ us = body" by simp
      then have "set us \<subseteq> set body" by auto
      with in_us b(2) show False by blast
    qed
  qed
qed

lemma expandGrouped_first:
  assumes d: "isNumber d" and i: "items \<noteq> []" "list_all wellFormedItem items"
  shows "\<not> hasGroupedMarker pre \<Longrightarrow>
           expandGrouped (pre @ groupedMarker d items @ t)
             = pre @ join (lit '', '') (map marker (d # map snd items)) @ expandGrouped t"
proof (induction pre)
  case Nil
  have "(0x5B :: jschar) \<notin> set []" by simp
  from expandGrouped_marker[OF this d i, of t] show ?case by simp
next
  case (Cons c cs)
  from Cons.prems have n: "matchGrouped (c # cs) = None" and h: "\<not> hasGroupedMarker cs"
    by (simp_all add: hasGroupedMarker_Cons)
  obtain r where g: "groupedMarker d items @ t = 0x5B # r" by (simp add: groupedMarker_def)
  have "matchGrouped ((c # cs) @ 0x5B # r) = None"
    by (rule matchGrouped_before_bracket[OF n]) simp
  with Cons.IH[OF h] g show ?case by simp
qed

lemma expandGrouped_keeps_single:
  assumes d: "isNumber d"
  shows "\<not> hasGroupedMarker pre \<Longrightarrow>
           expandGrouped (pre @ marker d @ t) = pre @ marker d @ expandGrouped t"
proof (induction pre)
  case Nil
  have "(0x5B :: jschar) \<notin> set []" by simp
  from expandGrouped_single[OF this d, of t] show ?case by simp
next
  case (Cons c cs)
  from Cons.prems have n: "matchGrouped (c # cs) = None" and h: "\<not> hasGroupedMarker cs"
    by (simp_all add: hasGroupedMarker_Cons)
  obtain r where g: "marker d @ t = 0x5B # r" by (simp add: marker_Cons)
  have "matchGrouped ((c # cs) @ 0x5B # r) = None"
    by (rule matchGrouped_before_bracket[OF n]) simp
  with Cons.IH[OF h] g show ?case by simp
qed

text \<open>
  C4 (as amended). With an empty reference list the result is the grouped-normalized text
  with its single markers removed, untrimmed and with no reference block. The
  normalization rewrites the first grouped marker \<open>[^d,w^d',...]\<close> of a text into the single
  markers \<open>[^d], [^d'], ...\<close>, keeps what precedes it (ordinary brackets and single markers
  included) and goes on behind it; a text without grouped marker is unchanged. The removal
  takes the first single marker of a text, keeps what precedes it and goes on behind it; a
  text without marker is unchanged. The result has no marker left when no marker of the
  normalized text is immediately followed by \<open>^\<close>, a digit or \<open>]\<close>, or none is immediately
  preceded by \<open>[\<close>, \<open>^\<close> or a digit (with both, the text around a removed marker can close
  up into a new one); and also when every opening bracket of the normalized text begins a
  marker.
\<close>

theorem C4_no_references:
  "(references a = [] \<longrightarrow>
      buildMdFromAnswer P a = Inr (stripFootnotes (expandGrouped (answer a)))) \<and>
   (\<not> hasGroupedMarker pre \<and> isNumber d \<and> items \<noteq> [] \<and> list_all wellFormedItem items \<longrightarrow>
      expandGrouped (pre @ groupedMarker d items @ t)
        = pre @ join (lit '', '') (map marker (d # map snd items)) @ expandGrouped t) \<and>
   (\<not> hasGroupedMarker pre \<and> isNumber d \<longrightarrow>
      expandGrouped (pre @ marker d @ t) = pre @ marker d @ expandGrouped t) \<and>
   (\<not> hasGroupedMarker s \<longrightarrow> expandGrouped s = s) \<and>
   (\<not> hasMarker pre \<and> isNumber d \<longrightarrow>
      stripFootnotes (pre @ marker d @ t) = pre @ stripFootnotes t) \<and>
   (\<not> hasMarker s \<longrightarrow> stripFootnotes s = s) \<and>
   (references a = [] \<and>
    (markersSeparated (expandGrouped (answer a)) \<or> markersSetOff (expandGrouped (answer a))) \<and>
    buildMdFromAnswer P a = Inr out \<longrightarrow>
      \<not> hasMarker out \<and> (\<forall>n. isNumber n \<longrightarrow> \<not> sublist (marker n) out)) \<and>
   (everyBracketStartsMarker s \<longrightarrow>
      0x5B \<notin> set (stripFootnotes s) \<and> \<not> hasMarker (stripFootnotes s))"
proof (intro conjI impI)
  assume "references a = []"
  then show "buildMdFromAnswer P a = Inr (stripFootnotes (expandGrouped (answer a)))"
    by (simp add: buildMdFromAnswer_def)
next
  assume "\<not> hasGroupedMarker pre \<and> isNumber d \<and> items \<noteq> [] \<and> list_all wellFormedItem items"
  then show "expandGrouped (pre @ groupedMarker d items @ t)
               = pre @ join (lit '', '') (map marker (d # map snd items)) @ expandGrouped t"
    by (intro expandGrouped_first) simp_all
next
  assume "\<not> hasGroupedMarker pre \<and> isNumber d"
  then show "expandGrouped (pre @ marker d @ t) = pre @ marker d @ expandGrouped t"
    by (intro expandGrouped_keeps_single) simp_all
next
  assume "\<not> hasGroupedMarker s"
  then show "expandGrouped s = s" by (rule expandGrouped_unchanged)
next
  assume "\<not> hasMarker pre \<and> isNumber d"
  then show "stripFootnotes (pre @ marker d @ t) = pre @ stripFootnotes t"
    by (intro stripFootnotes_first) simp_all
next
  assume "\<not> hasMarker s"
  then show "stripFootnotes s = s" by (rule stripFootnotes_unchanged)
next
  assume h: "references a = [] \<and>
             (markersSeparated (expandGrouped (answer a)) \<or> markersSetOff (expandGrouped (answer a))) \<and>
             buildMdFromAnswer P a = Inr out"
  then have "out = stripFootnotes (expandGrouped (answer a))"
    by (auto simp: buildMdFromAnswer_def)
  with h stripFootnotes_no_marker[of "expandGrouped (answer a)"]
    stripFootnotes_no_marker_left[of "expandGrouped (answer a)"]
  show "\<not> hasMarker out" by blast
next
  assume h: "references a = [] \<and>
             (markersSeparated (expandGrouped (answer a)) \<or> markersSetOff (expandGrouped (answer a))) \<and>
             buildMdFromAnswer P a = Inr out"
  then have "out = stripFootnotes (expandGrouped (answer a))"
    by (auto simp: buildMdFromAnswer_def)
  with h stripFootnotes_no_marker[of "expandGrouped (answer a)"]
    stripFootnotes_no_marker_left[of "expandGrouped (answer a)"]
  have "\<not> hasMarker out" by blast
  then show "\<forall>n. isNumber n \<longrightarrow> \<not> sublist (marker n) out"
    unfolding hasMarker_iff by blast
next
  assume "everyBracketStartsMarker s"
  then show "0x5B \<notin> set (stripFootnotes s)" by (rule stripFootnotes_no_bracket)
next
  assume "everyBracketStartsMarker s"
  then have "0x5B \<notin> set (stripFootnotes s)" by (rule stripFootnotes_no_bracket)
  then have "extractFootnotes (stripFootnotes s) = []" by (rule extractFootnotes_no_bracket)
  then show "\<not> hasMarker (stripFootnotes s)" by (rule extractFootnotes_Nil_iff[THEN iffD1])
qed

text \<open>
  The claim as stated fails: in \<open>"[^[^1]1]"\<close> the scan finds the inner \<open>[^1]\<close> only, and
  removing it leaves \<open>"[^1]"\<close>, a marker.
\<close>

theorem C4_marker_reappears:
  "buildMdFromAnswer samplePlatform \<lparr>answer = lit ''[^[^1]1]'', references = []\<rparr>
     = Inr (lit ''[^1]'') \<and>
   extractFootnotes (lit ''[^1]'') = [lit ''1'']"
  by (simp add: ev)

text \<open>
  Each of the three kinds of character behind a marker can close up a new one: besides
  the digit above, a caret and a closing bracket.
\<close>

lemma stripFootnotes_closes_up:
  "stripFootnotes (lit ''[[^5]^1]'') = lit ''[^1]'' \<and>
   stripFootnotes (lit ''[^1[^5]]'') = lit ''[^1]''"
  by (simp add: ev)

text \<open>
  The theorem at \<open>"see [a](b) x[^1, ^2] y[^3]"\<close>, a text with a link: the group is expanded
  behind the link, both kinds of markers are removed, the link stays, and
  \<open>"see [a](b) x,  y"\<close> is returned, which has no marker. And at \<open>"H[^1]2O"\<close>, where a digit
  follows the marker and none precedes it.
\<close>

theorem C4_no_references_witness:
  "buildMdFromAnswer samplePlatform
     \<lparr>answer = lit ''see [a](b) x[^1, ^2] y[^3]'', references = []\<rparr>
     = Inr (lit ''see [a](b) x,  y'') \<and>
   expandGrouped (lit ''see [a](b) x'' @ groupedMarker (lit ''1'') [(lit '' '', lit ''2'')] @ lit '' y[^3]'')
     = lit ''see [a](b) x'' @ join (lit '', '') [marker (lit ''1''), marker (lit ''2'')] @
       expandGrouped (lit '' y[^3]'') \<and>
   expandGrouped (lit '' y'' @ marker (lit ''3'') @ []) = lit '' y'' @ marker (lit ''3'') @ expandGrouped [] \<and>
   expandGrouped (lit ''see [a](b) x[^1] y'') = lit ''see [a](b) x[^1] y'' \<and>
   stripFootnotes (lit ''see [a](b) x'' @ marker (lit ''1'') @ lit '', [^2] y[^3]'')
     = lit ''see [a](b) x'' @ stripFootnotes (lit '', [^2] y[^3]'') \<and>
   stripFootnotes (lit ''see [a](b) x,  y'') = lit ''see [a](b) x,  y'' \<and>
   \<not> hasMarker (lit ''see [a](b) x,  y'') \<and>
   \<not> sublist (marker (lit ''3'')) (lit ''see [a](b) x,  y'') \<and>
   buildMdFromAnswer samplePlatform \<lparr>answer = lit ''H[^1]2O'', references = []\<rparr> = Inr (lit ''H2O'') \<and>
   \<not> markersSeparated (expandGrouped (lit ''H[^1]2O'')) \<and>
   \<not> hasMarker (lit ''H2O'') \<and>
   0x5B \<notin> set (stripFootnotes (lit ''[^1]1][^2]'')) \<and>
   \<not> hasMarker (stripFootnotes (lit ''[^1]1][^2]''))"
proof -
  let ?a = "\<lparr>answer = lit ''see [a](b) x[^1, ^2] y[^3]'', references = []\<rparr>"
  let ?pre = "lit ''see [a](b) x''"
  let ?out = "lit ''see [a](b) x,  y''"
  note result = C4_no_references[THEN conjunct1, rule_format]
  note expand = C4_no_references[THEN conjunct2, THEN conjunct1, rule_format]
  note single = C4_no_references[THEN conjunct2, THEN conjunct2, THEN conjunct1, rule_format]
  note same = C4_no_references[THEN conjunct2, THEN conjunct2, THEN conjunct2, THEN conjunct1,
                                rule_format]
  note strip = C4_no_references[THEN conjunct2, THEN conjunct2, THEN conjunct2, THEN conjunct2,
                                 THEN conjunct1, rule_format]
  note kept = C4_no_references[THEN conjunct2, THEN conjunct2, THEN conjunct2, THEN conjunct2,
                                THEN conjunct2, THEN conjunct1, rule_format]
  note clean = C4_no_references[THEN conjunct2, THEN conjunct2, THEN conjunct2, THEN conjunct2,
                                 THEN conjunct2, THEN conjunct2, THEN conjunct1, rule_format]
  note brackets = C4_no_references[THEN conjunct2, THEN conjunct2, THEN conjunct2, THEN conjunct2,
                                    THEN conjunct2, THEN conjunct2, THEN conjunct2, rule_format]
  have ng: "\<not> hasGroupedMarker ?pre" by (simp add: hasGroupedMarker_def ev)
  have ng2: "\<not> hasGroupedMarker (lit '' y'')" by (simp add: hasGroupedMarker_def ev)
  have ng3: "\<not> hasGroupedMarker (lit ''see [a](b) x[^1] y'')" by (simp add: hasGroupedMarker_def ev)
  have nm: "\<not> hasMarker ?pre" by (simp add: hasMarker_def ev)
  have nm2: "\<not> hasMarker ?out" by (simp add: hasMarker_def ev)
  have n1: "isNumber (lit ''1'')" and n3: "isNumber (lit ''3'')" by (simp_all add: isNumber_def ev)
  have wf: "[(lit '' '', lit ''2'')] \<noteq> [] \<and> list_all wellFormedItem [(lit '' '', lit ''2'')]"
    by (simp add: wellFormedItem_def isNumber_def ev)
  have "buildMdFromAnswer samplePlatform ?a = Inr (stripFootnotes (expandGrouped (answer ?a)))"
    by (rule result) simp
  moreover have ex: "stripFootnotes (expandGrouped (answer ?a)) = ?out" by (simp add: ev)
  ultimately have 1: "buildMdFromAnswer samplePlatform ?a = Inr ?out" by (simp only:)
  have "expandGrouped (?pre @ groupedMarker (lit ''1'') [(lit '' '', lit ''2'')] @ lit '' y[^3]'')
          = ?pre @ join (lit '', '') (map marker (lit ''1'' # map snd [(lit '' '', lit ''2'')])) @
            expandGrouped (lit '' y[^3]'')"
    using ng n1 wf by (intro expand) simp
  then have 2: "expandGrouped (?pre @ groupedMarker (lit ''1'') [(lit '' '', lit ''2'')] @ lit '' y[^3]'')
          = ?pre @ join (lit '', '') [marker (lit ''1''), marker (lit ''2'')] @
            expandGrouped (lit '' y[^3]'')"
    by simp
  have 3: "expandGrouped (lit '' y'' @ marker (lit ''3'') @ [])
             = lit '' y'' @ marker (lit ''3'') @ expandGrouped []"
    using ng2 n3 by (intro single) simp
  have 4: "expandGrouped (lit ''see [a](b) x[^1] y'') = lit ''see [a](b) x[^1] y''"
    using ng3 by (rule same)
  have 5: "stripFootnotes (?pre @ marker (lit ''1'') @ lit '', [^2] y[^3]'')
             = ?pre @ stripFootnotes (lit '', [^2] y[^3]'')"
    using nm n1 by (intro strip) simp
  have 6: "stripFootnotes ?out = ?out" using nm2 by (rule kept)
  have sep: "markersSeparated (expandGrouped (answer ?a))"
    by (simp add: markersSeparated_def continuesMarker_def ev)
  have "\<not> hasMarker ?out \<and> (\<forall>n. isNumber n \<longrightarrow> \<not> sublist (marker n) ?out)"
    using sep 1 by (intro clean[where a = ?a and P = samplePlatform]) simp
  then have 7: "\<not> hasMarker ?out \<and> \<not> sublist (marker (lit ''3'')) ?out" using n3 by blast
  let ?b = "\<lparr>answer = lit ''H[^1]2O'', references = []\<rparr>"
  have "buildMdFromAnswer samplePlatform ?b = Inr (stripFootnotes (expandGrouped (answer ?b)))"
    by (rule result) simp
  moreover have "stripFootnotes (expandGrouped (answer ?b)) = lit ''H2O''" by (simp add: ev)
  ultimately have b1: "buildMdFromAnswer samplePlatform ?b = Inr (lit ''H2O'')" by (simp only:)
  have b2: "\<not> markersSeparated (expandGrouped (lit ''H[^1]2O''))"
    by (simp add: markersSeparated_def continuesMarker_def ev)
  have off: "markersSetOff (expandGrouped (answer ?b))"
    by (simp add: markersSetOff_def opensMarker_def ev)
  have "\<not> hasMarker (lit ''H2O'') \<and> (\<forall>n. isNumber n \<longrightarrow> \<not> sublist (marker n) (lit ''H2O''))"
    using off b1 by (intro clean[where a = ?b and P = samplePlatform]) simp
  then have b3: "\<not> hasMarker (lit ''H2O'')" by blast
  have eb: "everyBracketStartsMarker (lit ''[^1]1][^2]'')"
    by (simp add: everyBracketStartsMarker_def ev)
  from brackets[OF eb] have 8: "0x5B \<notin> set (stripFootnotes (lit ''[^1]1][^2]'')) \<and>
                                \<not> hasMarker (stripFootnotes (lit ''[^1]1][^2]''))" .
  from 1 2 3 4 5 6 7 b1 b2 b3 8 show ?thesis by blast
qed

subsection \<open>The markers of the reference block\<close>






















text \<open>
  The proviso on the links is needed: the \<open>url\<close> of a reference is copied into its citation
  line as it is, so a marker in it is a marker of the result.
\<close>

lemma marker_inside_link:
  "buildMdFromAnswer samplePlatform
     \<lparr>answer = lit ''x'',
      references = [\<lparr>exactQuote = lit ''a'', url = Some (lit ''http://b.org/[^9]'')\<rparr>]\<rparr>
     = Inr (lit ''x'' @ [LF, LF, GLYPH] @ lit ''[^1]'' @ [LF, LF] @
            lit ''[^1]: a [b.org](http://b.org/[^9])'') \<and>
   extractFootnotes (lit ''x'' @ [LF, LF, GLYPH] @ lit ''[^1]'' @ [LF, LF] @
            lit ''[^1]: a [b.org](http://b.org/[^9])'')
     = [lit ''1'', lit ''1'', lit ''9''] \<and>
   \<not> validIndex 1 (lit ''9'')"
  by (simp add: ev validIndex_def)


end
